theory Spec2Isabelle
  imports Complex_Main "HOL-Library.AList" "HOL-Library.Multiset"
begin

section \<open>Brainstorm data iterators (\<^verbatim>\<open>brainstorm/data_iterators.py\<close>)\<close>

text \<open>
  A shallow embedding of the module. Python exceptions are values of \<open>error\<close>; every
  function that can raise returns \<open>error + 'b\<close> with \<open>Inl\<close> the exception. Dictionaries
  are association lists (in iteration order), and dictionary objects that are shared
  between an iterator and its consumer live in an explicit heap, addressed by their
  position, because \<^verbatim>\<open>AddGaussianNoise.__call__\<close> assigns into the dictionary it is
  handed. A generator is modelled by what a \<^verbatim>\<open>for\<close> loop over it does: it is given the
  loop body \<open>k\<close> and runs it at every \<^verbatim>\<open>yield\<close>.
\<close>

subsection \<open>Exceptions\<close>

datatype validation_msg =
    NoShapeAttribute string
  | TooFewDimensions
  | UnequalSequences "(string \<times> nat) list"

datatype error =
    IteratorValidationError validation_msg
  | AssertionError
  | AttributeError
  | ZeroDivisionError
  | ValueError
  | KeyError
  | IndexError
  | TypeError
  | StopIteration

subsection \<open>Arrays and Python slicing\<close>

text \<open>
  A numpy array is its shape and its elements in row-major (C) order. A value stored
  under a name is either such an array or an object without a \<^verbatim>\<open>shape\<close> attribute.
\<close>

datatype 'a ndarray = NdArray (shape: "nat list") (elems: "'a list")

datatype 'a pyobj = NoShapeObj | Arr "'a ndarray"

type_synonym 'a dict = "(string \<times> 'a pyobj) list"

definition wf_array :: "'a ndarray \<Rightarrow> bool" where
  "wf_array v = (length (elems v) = prod_list (shape v))"

text \<open>A slice bound \<^verbatim>\<open>i\<close> on a sequence of length \<open>n\<close> (step 1): negative bounds count
  from the end, and every bound is clamped to \<open>[0, n]\<close>.\<close>

definition slice_index :: "int \<Rightarrow> nat \<Rightarrow> nat" where
  "slice_index i n = (if i < 0 then nat (max 0 (i + int n)) else min (nat i) n)"

definition py_slice :: "'b list \<Rightarrow> int \<Rightarrow> int \<Rightarrow> 'b list" where
  "py_slice xs a b =
     (let lo = slice_index a (length xs); hi = slice_index b (length xs)
      in take (hi - lo) (drop lo xs))"

text \<open>\<^verbatim>\<open>v[:, a:b]\<close>: all of the first axis, the slice \<open>a:b\<close> of the second. An array
  with fewer than two axes has too many indices.\<close>

definition slice_axis1 :: "'a ndarray \<Rightarrow> int \<Rightarrow> int \<Rightarrow> error + 'a ndarray" where
  "slice_axis1 v a b =
     (case shape v of
        t # n # rest \<Rightarrow>
          (let lo = slice_index a n; hi = slice_index b n; len = hi - lo;
               f = prod_list rest
           in Inr (NdArray (t # len # rest)
                 (concat (map (\<lambda>r. take (len * f) (drop (r * n * f + lo * f) (elems v)))
                        [0..<t]))))
      | _ \<Rightarrow> Inl IndexError)"

text \<open>\<^verbatim>\<open>{k: v[:, a:b] for k, v in data.items()}\<close>\<close>

fun slice_items :: "'a dict \<Rightarrow> int \<Rightarrow> int \<Rightarrow> error + 'a dict" where
  "slice_items [] a b = Inr []"
| "slice_items ((k, v) # items) a b =
     (case v of
        NoShapeObj \<Rightarrow> Inl TypeError
      | Arr x \<Rightarrow>
          (case slice_axis1 x a b of
             Inl e \<Rightarrow> Inl e
           | Inr y \<Rightarrow>
               (case slice_items items a b of
                  Inl e \<Rightarrow> Inl e
                | Inr items' \<Rightarrow> Inr ((k, Arr y) # items'))))"

subsection \<open>\<^verbatim>\<open>_assert_correct_data_format\<close>\<close>

text \<open>The loop over \<^verbatim>\<open>named_data.items()\<close>: it raises at the first offending entry and
  otherwise records the second axis of every array.\<close>

fun collect_nr_sequences :: "'a dict \<Rightarrow> error + (string \<times> nat) list" where
  "collect_nr_sequences [] = Inr []"
| "collect_nr_sequences ((name, d) # items) =
     (case d of
        NoShapeObj \<Rightarrow> Inl (IteratorValidationError (NoShapeAttribute name))
      | Arr v \<Rightarrow>
          if length (shape v) < 3 then Inl (IteratorValidationError TooFewDimensions)
          else (case collect_nr_sequences items of
                  Inl e \<Rightarrow> Inl e
                | Inr nr \<Rightarrow> Inr ((name, shape v ! 1) # nr)))"

text \<open>\<^verbatim>\<open>min\<close> and \<open>max\<close> of an empty sequence raise \<^verbatim>\<open>ValueError\<close>.\<close>

definition assert_correct_data_format :: "'a dict \<Rightarrow> error + nat" where
  "assert_correct_data_format named_data =
     (case collect_nr_sequences named_data of
        Inl e \<Rightarrow> Inl e
      | Inr nr_sequences \<Rightarrow>
          if nr_sequences = [] then Inl ValueError
          else if Min (set (map snd nr_sequences)) \<noteq> Max (set (map snd nr_sequences))
          then Inl (IteratorValidationError (UnequalSequences nr_sequences))
          else Inr (Min (set (map snd nr_sequences))))"

subsection \<open>The progress reporter\<close>

text \<open>
  \<^verbatim>\<open>progress_bar\<close> is a generator that is resumed with \<^verbatim>\<open>send\<close>. Its state is where it
  is suspended: inside the loop with the current \<open>i\<close>, or at the final \<^verbatim>\<open>yield\<close>;
  \<^verbatim>\<open>silence\<close> is always suspended at its only \<^verbatim>\<open>yield\<close>. The quotient
  \<^verbatim>\<open>progress / maximum * len(bar)\<close> is taken over the rationals.
\<close>

datatype pbar = Silence | InLoop nat int | AtFinalYield

definition bar :: string where
  "bar = ''====1====2====3====4====5====6====7====8====9====0''"

definition trunc :: "rat \<Rightarrow> int" where
  "trunc x = (if x < 0 then \<lceil>x\<rceil> else \<lfloor>x\<rfloor>)"

text \<open>\<^verbatim>\<open>next(p_bar)\<close> on a fresh generator: the first value yielded and the state.\<close>

definition progress_bar :: "nat \<Rightarrow> string \<times> pbar" where
  "progress_bar maximum = (''['', InLoop maximum 0)"

definition silence :: "string \<times> pbar" where
  "silence = ('''', Silence)"

text \<open>\<^verbatim>\<open>p_bar.send(progress)\<close>; \<open>elapsed\<close> is the text of the elapsed time.\<close>

fun send :: "string \<Rightarrow> pbar \<Rightarrow> int \<Rightarrow> error + (string \<times> pbar)" where
  "send elapsed Silence progress = Inr ('''', Silence)"
| "send elapsed (InLoop maximum i) progress =
     (if maximum = 0 then Inl ZeroDivisionError
      else
        (let j = trunc (of_int progress / of_nat maximum * of_nat (length bar));
             out = py_slice bar i j
         in if j < int (length bar) then Inr (out, InLoop maximum j)
            else Inr (out @ ''] Took: '' @ elapsed @ [CHR 0x0A], AtFinalYield)))"
| "send elapsed AtFinalYield progress = Inl StopIteration"

subsection \<open>The world outside the iterators\<close>

text \<open>
  The heap of dictionary objects, the compute handler's random state, and the text
  written to standard output. Two fields only record what happened, for the statements
  below: \<open>sent\<close> lists the arguments of \<^verbatim>\<open>p_bar.send\<close>, and \<open>received\<close> lists what a
  consumer was handed at each \<^verbatim>\<open>yield\<close> (the dictionary's address and its contents
  at that moment).
\<close>

record ('a, 'g) world =
  heap :: "'a dict list"
  hstate :: 'g
  stdout :: "string list"
  sent :: "int list"
  received :: "(nat \<times> 'a dict) list"

text \<open>
  The collaborators the module takes from elsewhere: one draw of the handler's Gaussian
  source (mean, standard deviation, state), the in-place shuffle of
  \<^verbatim>\<open>Seedable\<close>'s random source, and the text of the elapsed time.
\<close>

record ('a, 'g, 'r) env =
  gauss :: "'a \<Rightarrow> 'a \<Rightarrow> 'g \<Rightarrow> 'a \<times> 'g"
  rnd_shuffle :: "'r \<Rightarrow> nat list \<Rightarrow> nat list \<times> 'r"
  elapsed_str :: string

subsection \<open>The compute handler\<close>

definition zeros :: "nat list \<Rightarrow> ('a::zero) ndarray" where
  "zeros s = NdArray s (replicate (prod_list s) 0)"

fun draws :: "('a \<Rightarrow> 'a \<Rightarrow> 'g \<Rightarrow> 'a \<times> 'g) \<Rightarrow> 'a \<Rightarrow> 'a \<Rightarrow> nat \<Rightarrow> 'g \<Rightarrow> 'a list \<times> 'g" where
  "draws gs mean std 0 g = ([], g)"
| "draws gs mean std (Suc n) g =
     (case gs mean std g of
        (x, g1) \<Rightarrow> (case draws gs mean std n g1 of (xs, g2) \<Rightarrow> (x # xs, g2)))"

text \<open>\<^verbatim>\<open>fill_gaussian(mean, std, out)\<close> overwrites every element of \<open>out\<close>;
  \<^verbatim>\<open>add_tt(a, b, out)\<close> writes the elementwise sum into \<open>out\<close>.\<close>

definition fill_gaussian ::
  "('a \<Rightarrow> 'a \<Rightarrow> 'g \<Rightarrow> 'a \<times> 'g) \<Rightarrow> 'a \<Rightarrow> 'a \<Rightarrow> 'a ndarray \<Rightarrow> 'g \<Rightarrow> 'a ndarray \<times> 'g" where
  "fill_gaussian gs mean std out g =
     (case draws gs mean std (length (elems out)) g of
        (xs, g') \<Rightarrow> (NdArray (shape out) xs, g'))"

definition add_tt :: "('a::plus) ndarray \<Rightarrow> 'a ndarray \<Rightarrow> 'a ndarray \<Rightarrow> 'a ndarray" where
  "add_tt a b out = NdArray (shape out) (map2 (+) (elems a) (elems b))"

subsection \<open>Iterator objects\<close>

text \<open>
  One constructor per class, with the attributes \<^verbatim>\<open>__init__\<close> sets, in this order:
  \<^item> \<open>DataIterator data_names\<close>
  \<^item> \<open>Undivided data_names data total_size\<close>
  \<^item> \<open>Online data_names nr_sequences data shuffle verbose sample_size rnd\<close>
  \<^item> \<open>Minibatches data_names nr_sequences data shuffle verbose batch_size sample_size rnd\<close>
  \<^item> \<open>AddGaussianNoise data_names iter std_dict mean_dict\<close>

  \<open>data\<close> is the heap address of the dictionary the iterator keeps, \<open>rnd\<close> the state of
  its own random source.
\<close>

datatype ('a, 'r) iterator =
    DataIterator "string list"
  | Undivided "string list" nat int
  | Online "string list" nat nat bool "bool option" int 'r
  | Minibatches "string list" nat nat bool "bool option" int int 'r
  | AddGaussianNoise "string list" "('a, 'r) iterator" "(string \<times> 'a) list" "(string \<times> 'a) list"

fun data_names :: "('a, 'r) iterator \<Rightarrow> string list" where
  "data_names (DataIterator ns) = ns"
| "data_names (Undivided ns a ts) = ns"
| "data_names (Online ns n a sh vb ss r) = ns"
| "data_names (Minibatches ns n a sh vb bs ss r) = ns"
| "data_names (AddGaussianNoise ns it sd md) = ns"

text \<open>\<^verbatim>\<open>iter.data\<close>: only the three classes that keep a dataset have the attribute.\<close>

fun data_attr :: "('a, 'r) iterator \<Rightarrow> error + nat" where
  "data_attr (DataIterator ns) = Inl AttributeError"
| "data_attr (Undivided ns a ts) = Inr a"
| "data_attr (Online ns n a sh vb ss r) = Inr a"
| "data_attr (Minibatches ns n a sh vb bs ss r) = Inr a"
| "data_attr (AddGaussianNoise ns it sd md) = Inl AttributeError"

subsection \<open>Constructors\<close>

text \<open>\<^verbatim>\<open>d.size\<close> and \<^verbatim>\<open>d.shape[0] * np.prod(d.shape[2:])\<close>, read after validation, when
  every value is an array with at least three axes.\<close>

fun obj_size :: "'a pyobj \<Rightarrow> nat" where
  "obj_size NoShapeObj = 0"
| "obj_size (Arr v) = prod_list (shape v)"

fun obj_sample_size :: "'a pyobj \<Rightarrow> nat" where
  "obj_sample_size NoShapeObj = 0"
| "obj_sample_size (Arr v) = shape v ! 0 * prod_list (drop 2 (shape v))"

definition Undivided_init ::
  "'a dict \<Rightarrow> ('a, 'g) world \<Rightarrow> error + (('a, 'r) iterator \<times> ('a, 'g) world)" where
  "Undivided_init named_data w =
     (case assert_correct_data_format named_data of
        Inl e \<Rightarrow> Inl e
      | Inr _ \<Rightarrow>
          Inr (Undivided (map fst named_data) (length (heap w))
                 (int (sum_list (map (\<lambda>(k, d). obj_size d) named_data))),
               w\<lparr>heap := heap w @ [named_data]\<rparr>))"

definition Online_init ::
  "bool \<Rightarrow> bool option \<Rightarrow> 'r \<Rightarrow> 'a dict \<Rightarrow> ('a, 'g) world
     \<Rightarrow> error + (('a, 'r) iterator \<times> ('a, 'g) world)" where
  "Online_init shuffle verbose rnd named_data w =
     (case assert_correct_data_format named_data of
        Inl e \<Rightarrow> Inl e
      | Inr nr_sequences \<Rightarrow>
          Inr (Online (map fst named_data) nr_sequences (length (heap w)) shuffle verbose
                 (int (sum_list (map (\<lambda>(k, d). obj_sample_size d) named_data))) rnd,
               w\<lparr>heap := heap w @ [named_data]\<rparr>))"

definition Minibatches_init ::
  "int \<Rightarrow> bool \<Rightarrow> bool option \<Rightarrow> 'r \<Rightarrow> 'a dict \<Rightarrow> ('a, 'g) world
     \<Rightarrow> error + (('a, 'r) iterator \<times> ('a, 'g) world)" where
  "Minibatches_init batch_size shuffle verbose rnd named_data w =
     (case assert_correct_data_format named_data of
        Inl e \<Rightarrow> Inl e
      | Inr nr_sequences \<Rightarrow>
          Inr (Minibatches (map fst named_data) nr_sequences (length (heap w)) shuffle verbose
                 batch_size
                 (sum_list (map (\<lambda>(k, d). int (obj_sample_size d) * batch_size) named_data)) rnd,
               w\<lparr>heap := heap w @ [named_data]\<rparr>))"

text \<open>The loop of \<^verbatim>\<open>AddGaussianNoise.__init__\<close> over \<^verbatim>\<open>std_dict.keys()\<close>; each round
  evaluates \<^verbatim>\<open>iter.data.keys()\<close>.\<close>

fun check_keys :: "('a, 'r) iterator \<Rightarrow> 'a dict list \<Rightarrow> string list \<Rightarrow> error + unit" where
  "check_keys it h [] = Inr ()"
| "check_keys it h (key # keys) =
     (case data_attr it of
        Inl e \<Rightarrow> Inl e
      | Inr a \<Rightarrow>
          if key \<in> set (map fst (h ! a)) then check_keys it h keys
          else Inl AssertionError)"

definition AddGaussianNoise_init ::
  "('a, 'r) iterator \<Rightarrow> (string \<times> 'a) list \<Rightarrow> (string \<times> 'a) list option \<Rightarrow> ('a, 'g) world
     \<Rightarrow> error + (('a, 'r) iterator \<times> ('a, 'g) world)" where
  "AddGaussianNoise_init it std_dict mean_dict w =
     (if (case mean_dict of
            None \<Rightarrow> False
          | Some m \<Rightarrow> set (map fst m) \<noteq> set (map fst std_dict))
      then Inl AssertionError
      else
        (case check_keys it (heap w) (map fst std_dict) of
           Inl e \<Rightarrow> Inl e
         | Inr _ \<Rightarrow>
             Inr (AddGaussianNoise (data_names it) it std_dict
                    (case mean_dict of None \<Rightarrow> [] | Some m \<Rightarrow> m), w)))"

subsection \<open>Iteration\<close>

definition print :: "string \<Rightarrow> ('a, 'g) world \<Rightarrow> ('a, 'g) world" where
  "print s w = w\<lparr>stdout := stdout w @ [s]\<rparr>"

text \<open>The body of \<^verbatim>\<open>AddGaussianNoise.__call__\<close> for one key of \<^verbatim>\<open>std_dict\<close>, on the
  dictionary at address \<open>a\<close>; \<^verbatim>\<open>data[key] = noise\<close> assigns into that dictionary.\<close>

definition add_noise_key ::
  "('a::{zero,plus}, 'g, 'r) env \<Rightarrow> (string \<times> 'a) list \<Rightarrow> nat \<Rightarrow> string \<times> 'a
     \<Rightarrow> ('a, 'g) world \<Rightarrow> error + ('a, 'g) world" where
  "add_noise_key env mean_dict a kv w =
     (case map_of (heap w ! a) (fst kv) of
        None \<Rightarrow> Inl KeyError
      | Some NoShapeObj \<Rightarrow> Inl AttributeError
      | Some (Arr x) \<Rightarrow>
          (let noise = zeros (shape x);
               mean = (case map_of mean_dict (fst kv) of None \<Rightarrow> 0 | Some m \<Rightarrow> m);
               std = snd kv;
               (noise1, g1) = fill_gaussian (gauss env) mean std noise (hstate w);
               noise2 = add_tt x noise1 noise1
           in Inr (w\<lparr>heap := (heap w)[a := AList.update (fst kv) (Arr noise2) (heap w ! a)],
                     hstate := g1\<rparr>)))"

text \<open>The inner \<^verbatim>\<open>for key in self.std_dict.keys()\<close>, over the entries of the
  dictionary in order.\<close>

fun add_noise ::
  "('a::{zero,plus}, 'g, 'r) env \<Rightarrow> (string \<times> 'a) list \<Rightarrow> nat \<Rightarrow> (string \<times> 'a) list
     \<Rightarrow> ('a, 'g) world \<Rightarrow> error + ('a, 'g) world" where
  "add_noise env mean_dict a [] w = Inr w"
| "add_noise env mean_dict a (kv # std_items) w =
     (case add_noise_key env mean_dict a kv w of
        Inl e \<Rightarrow> Inl e
      | Inr w1 \<Rightarrow> add_noise env mean_dict a std_items w1)"

text \<open>The \<^verbatim>\<open>for i, idx in enumerate(indices)\<close> loops of \<^verbatim>\<open>Online\<close> and
  \<^verbatim>\<open>Minibatches\<close>: build a new dictionary, hand it to the consumer at the \<^verbatim>\<open>yield\<close>,
  then advance and print the progress bar.\<close>

fun online_loop ::
  "string \<Rightarrow> (nat \<Rightarrow> ('a, 'g) world \<Rightarrow> error + ('a, 'g) world) \<Rightarrow> nat
     \<Rightarrow> (nat \<times> nat) list \<Rightarrow> pbar \<Rightarrow> ('a, 'g) world \<Rightarrow> error + ('a, 'g) world" where
  "online_loop el k dat [] p_bar w = Inr w"
| "online_loop el k dat ((i, idx) # rest) p_bar w =
     (case slice_items (heap w ! dat) (int idx) (int idx + 1) of
        Inl e \<Rightarrow> Inl e
      | Inr d \<Rightarrow>
          (case k (length (heap w)) (w\<lparr>heap := heap w @ [d]\<rparr>) of
             Inl e \<Rightarrow> Inl e
           | Inr w1 \<Rightarrow>
               (case send el p_bar (int i + 1) of
                  Inl e \<Rightarrow> Inl e
                | Inr (out, p_bar') \<Rightarrow>
                    online_loop el k dat rest p_bar'
                      (print out (w1\<lparr>sent := sent w1 @ [int i + 1]\<rparr>)))))"

fun minibatch_loop ::
  "string \<Rightarrow> (nat \<Rightarrow> ('a, 'g) world \<Rightarrow> error + ('a, 'g) world) \<Rightarrow> nat \<Rightarrow> int
     \<Rightarrow> (nat \<times> nat) list \<Rightarrow> pbar \<Rightarrow> ('a, 'g) world \<Rightarrow> error + ('a, 'g) world" where
  "minibatch_loop el k dat batch_size [] p_bar w = Inr w"
| "minibatch_loop el k dat batch_size ((i, idx) # rest) p_bar w =
     (case slice_items (heap w ! dat) (int idx * batch_size) ((int idx + 1) * batch_size) of
        Inl e \<Rightarrow> Inl e
      | Inr d \<Rightarrow>
          (case k (length (heap w)) (w\<lparr>heap := heap w @ [d]\<rparr>) of
             Inl e \<Rightarrow> Inl e
           | Inr w1 \<Rightarrow>
               (case send el p_bar ((int i + 1) * batch_size) of
                  Inl e \<Rightarrow> Inl e
                | Inr (out, p_bar') \<Rightarrow>
                    minibatch_loop el k dat batch_size rest p_bar'
                      (print out (w1\<lparr>sent := sent w1 @ [(int i + 1) * batch_size]\<rparr>)))))"

text \<open>\<^verbatim>\<open>(self.verbose is None and verbose) or self.verbose\<close>, as a truth value.\<close>

definition use_bar :: "bool option \<Rightarrow> bool \<Rightarrow> bool" where
  "use_bar self_verbose verbose = ((self_verbose = None \<and> verbose) \<or> self_verbose = Some True)"

text \<open>
  \<^verbatim>\<open>for data in it(handler, verbose): k(data)\<close>, run to the end; the result is the
  iterator (its random source may have advanced) and the world. The base class's
  \<^verbatim>\<open>__call__\<close> returns \<^verbatim>\<open>None\<close>, which cannot be iterated. The quotient
  \<^verbatim>\<open>nr_sequences / batch_size\<close> is taken over the rationals, and \<^verbatim>\<open>np.arange\<close> of a
  number below 1 is empty.
\<close>

fun call ::
  "('a::{zero,plus}, 'g, 'r) env \<Rightarrow> bool \<Rightarrow> ('a, 'r) iterator
     \<Rightarrow> (nat \<Rightarrow> ('a, 'g) world \<Rightarrow> error + ('a, 'g) world) \<Rightarrow> ('a, 'g) world
     \<Rightarrow> error + (('a, 'r) iterator \<times> ('a, 'g) world)" where
  "call env verbose (DataIterator ns) k w = Inl TypeError"
| "call env verbose (Undivided ns dat ts) k w =
     (case k dat w of
        Inl e \<Rightarrow> Inl e
      | Inr w1 \<Rightarrow> Inr (Undivided ns dat ts, w1))"
| "call env verbose (Online ns nr_sequences dat shuffle self_verbose ss rnd) k w =
     (let (out, p_bar) = (if use_bar self_verbose verbose then progress_bar nr_sequences
                          else silence);
          w0 = print out w;
          indices = [0..<nr_sequences];
          (indices1, rnd1) = (if shuffle then rnd_shuffle env rnd indices else (indices, rnd))
      in case online_loop (elapsed_str env) k dat (enumerate 0 indices1) p_bar w0 of
           Inl e \<Rightarrow> Inl e
         | Inr w1 \<Rightarrow> Inr (Online ns nr_sequences dat shuffle self_verbose ss rnd1, w1))"
| "call env verbose (Minibatches ns nr_sequences dat shuffle self_verbose batch_size ss rnd) k w =
     (let (out, p_bar) = (if use_bar self_verbose verbose then progress_bar nr_sequences
                          else silence);
          w0 = print out w
      in if batch_size = 0 then Inl ZeroDivisionError
         else
           (let indices = [0..<nat \<lceil>(of_nat nr_sequences :: rat) / of_int batch_size\<rceil>];
                (indices1, rnd1) =
                   (if shuffle then rnd_shuffle env rnd indices else (indices, rnd))
            in case minibatch_loop (elapsed_str env) k dat batch_size (enumerate 0 indices1)
                      p_bar w0 of
                 Inl e \<Rightarrow> Inl e
               | Inr w1 \<Rightarrow>
                   Inr (Minibatches ns nr_sequences dat shuffle self_verbose batch_size ss rnd1,
                        w1)))"
| "call env verbose (AddGaussianNoise ns it std_dict mean_dict) k w =
     (case call env verbose it
             (\<lambda>a w'. case add_noise env mean_dict a std_dict w' of
                        Inl e \<Rightarrow> Inl e
                      | Inr w'' \<Rightarrow> k a w'') w of
        Inl e \<Rightarrow> Inl e
      | Inr (it1, w1) \<Rightarrow> Inr (AddGaussianNoise ns it1 std_dict mean_dict, w1))"

text \<open>A consumer that takes every batch and notes what it was handed.\<close>

definition collect :: "nat \<Rightarrow> ('a, 'g) world \<Rightarrow> error + ('a, 'g) world" where
  "collect a w = Inr (w\<lparr>received := received w @ [(a, heap w ! a)]\<rparr>)"

definition consume ::
  "('a::{zero,plus}, 'g, 'r) env \<Rightarrow> bool \<Rightarrow> ('a, 'r) iterator \<Rightarrow> ('a, 'g) world
     \<Rightarrow> error + (('a, 'r) iterator \<times> ('a, 'g) world)" where
  "consume env verbose it w = call env verbose it collect w"

subsection \<open>Notions used in the statements\<close>

text \<open>An entry passes the per-entry checks of the validator when it is an array with at
  least three axes; its batch dimension is the second axis.\<close>

fun obj_ok :: "'a pyobj \<Rightarrow> bool" where
  "obj_ok NoShapeObj = False"
| "obj_ok (Arr v) = (3 \<le> length (shape v))"

fun obj_batch_dim :: "'a pyobj \<Rightarrow> nat" where
  "obj_batch_dim NoShapeObj = 0"
| "obj_batch_dim (Arr v) = shape v ! 1"

subsection \<open>Sample inputs\<close>

text \<open>A handler whose Gaussian source is a counter, a random source whose shuffle
  reverses, and a dataset of two arrays with four samples each.\<close>

definition sample_env :: "(int, nat, nat) env" where
  "sample_env = \<lparr>gauss = (\<lambda>mean std g. (mean + std * int (Suc g), Suc g)),
                  rnd_shuffle = (\<lambda>r xs. (rev xs, Suc r)),
                  elapsed_str = ''0:00:00.0''\<rparr>"

definition empty_world :: "(int, nat) world" where
  "empty_world = \<lparr>heap = [], hstate = 0, stdout = [], sent = [], received = []\<rparr>"

definition sample_data :: "int dict" where
  "sample_data = [(''x'', Arr (NdArray [1, 4, 2] [10, 11, 20, 21, 30, 31, 40, 41])),
                  (''y'', Arr (NdArray [2, 4, 1] [1, 2, 3, 4, 5, 6, 7, 8]))]"

definition sample_undivided :: "(int, nat) iterator" where
  "sample_undivided = Undivided [''x'', ''y''] 0 16"

definition sample_world :: "(int, nat) world" where
  "sample_world = \<lparr>heap = [sample_data], hstate = 0, stdout = [], sent = [], received = []\<rparr>"

definition sample_noisy :: "(int, nat) iterator" where
  "sample_noisy = AddGaussianNoise [''x'', ''y''] sample_undivided [(''x'', 1)] []"

definition sample_online :: "(int, nat) iterator" where
  "sample_online = Online [''x'', ''y''] 4 0 True None 4 0"

definition sample_minibatches :: "(int, nat) iterator" where
  "sample_minibatches = Minibatches [''x'', ''y''] 4 0 False None 3 12 0"

definition sample_minibatches0 :: "(int, nat) iterator" where
  "sample_minibatches0 = Minibatches [''x'', ''y''] 4 0 False None 0 0 0"

text \<open>A dataset the validator accepts whose batch dimension is 0.\<close>

definition empty_data :: "int dict" where
  "empty_data = [(''x'', Arr (NdArray [2, 0, 3] []))]"

definition empty_data_world :: "(int, nat) world" where
  "empty_data_world = \<lparr>heap = [empty_data], hstate = 0, stdout = [], sent = [], received = []\<rparr>"

definition empty_minibatches0 :: "(int, nat) iterator" where
  "empty_minibatches0 = Minibatches [''x''] 0 0 False None 0 0 0"

text \<open>The progress bar does not stop the loop it reports on: with \<open>len\<close> rounds to go
  from position \<open>i0\<close>, it is silent, or it is inside its loop and every count but the
  last stays below the maximum.\<close>

definition pbar_fine :: "pbar \<Rightarrow> nat \<Rightarrow> int \<Rightarrow> nat \<Rightarrow> nat \<Rightarrow> bool" where
  "pbar_fine pb n b i0 len \<longleftrightarrow>
     len = 0 \<or> pb = Silence \<or>
     (\<exists>j. pb = InLoop n j \<and> 0 < n \<and> 0 \<le> b
          \<and> (\<forall>i. i0 \<le> i \<and> Suc i < i0 + len \<longrightarrow> (int i + 1) * b < int n))"

text \<open>What is asked of the random source: its shuffle returns a permutation.\<close>

definition shuffle_permutes :: "('a, 'g, 'r) env \<Rightarrow> bool" where
  "shuffle_permutes env \<longleftrightarrow> (\<forall>r xs. mset (fst (rnd_shuffle env r xs)) = mset xs)"

text \<open>Joining arrays along the batch dimension: the result has \<open>t\<close> rows, and row \<open>r\<close> is
  row \<open>r\<close> of every array in turn. \<open>chunk v lo hi\<close> is the part of \<open>v\<close> between the
  positions \<open>lo\<close> and \<open>hi\<close> of the batch dimension.\<close>

definition concat_batch_dim :: "nat \<Rightarrow> nat list \<Rightarrow> 'a ndarray list \<Rightarrow> 'a ndarray" where
  "concat_batch_dim t rest ys =
     NdArray (t # sum_list (map (\<lambda>y. shape y ! 1) ys) # rest)
       (concat (map (\<lambda>r. concat (map (\<lambda>y. take (shape y ! 1 * prod_list rest)
                                          (drop (r * (shape y ! 1 * prod_list rest)) (elems y))) ys))
                 [0..<t]))"

definition chunk :: "'a ndarray \<Rightarrow> nat \<Rightarrow> nat \<Rightarrow> 'a ndarray" where
  "chunk v lo hi =
     NdArray (shape v ! 0 # (hi - lo) # drop 2 (shape v))
       (concat (map (\<lambda>r. take ((hi - lo) * prod_list (drop 2 (shape v)))
                          (drop (r * (shape v ! 1) * prod_list (drop 2 (shape v))
                                 + lo * prod_list (drop 2 (shape v))) (elems v)))
                 [0..<shape v ! 0]))"

text \<open>The batch that holds, under every name, the positions \<open>lo\<close> to \<open>hi\<close> of the batch
  dimension (both cut off at its size).\<close>

fun chunk_obj :: "nat \<Rightarrow> nat \<Rightarrow> 'a pyobj \<Rightarrow> 'a pyobj" where
  "chunk_obj lo hi NoShapeObj = NoShapeObj"
| "chunk_obj lo hi (Arr v) = Arr (chunk v (min lo (shape v ! 1)) (min hi (shape v ! 1)))"

definition batch_of :: "'a dict \<Rightarrow> nat \<Rightarrow> nat \<Rightarrow> 'a dict" where
  "batch_of nd lo hi = map (\<lambda>kv. (fst kv, chunk_obj lo hi (snd kv))) nd"

text \<open>The number of samples in a batch: the batch dimension of its first array.\<close>

definition samples_in :: "'a dict \<Rightarrow> nat" where
  "samples_in d = (case d of [] \<Rightarrow> 0 | kv # _ \<Rightarrow> obj_batch_dim (snd kv))"

section \<open>The shape validator\<close>

lemma collect_nr_sequences_ok:
  "list_all (\<lambda>kv. obj_ok (snd kv)) nd \<Longrightarrow>
     collect_nr_sequences nd = Inr (map (\<lambda>kv. (fst kv, obj_batch_dim (snd kv))) nd)"
proof (induction nd)
  case Nil
  show ?case by simp
next
  case (Cons kv nd)
  obtain k d where kv: "kv = (k, d)" by (cases kv)
  from Cons.prems obtain v where d: "d = Arr v" and len: "3 \<le> length (shape v)"
    by (cases d) (auto simp: kv)
  from Cons have "collect_nr_sequences nd = Inr (map (\<lambda>kv. (fst kv, obj_batch_dim (snd kv))) nd)"
    by simp
  then show ?case using len by (simp add: kv d)
qed

lemma collect_nr_sequences_Inr:
  "collect_nr_sequences nd = Inr nr \<Longrightarrow>
     list_all (\<lambda>kv. obj_ok (snd kv)) nd \<and> nr = map (\<lambda>kv. (fst kv, obj_batch_dim (snd kv))) nd"
proof (induction nd arbitrary: nr)
  case Nil
  then show ?case by auto
next
  case (Cons kv nd)
  obtain k d where kv: "kv = (k, d)" by (cases kv)
  show ?case
  proof (cases d)
    case NoShapeObj
    then show ?thesis using Cons.prems by (simp add: kv)
  next
    case (Arr v)
    with Cons.prems obtain nr' where "collect_nr_sequences nd = Inr nr'"
      and "3 \<le> length (shape v)" and "nr = (k, shape v ! 1) # nr'"
      by (auto simp: kv split: sum.splits if_splits)
    with Cons.IH [of nr'] Arr show ?thesis by (simp add: kv)
  qed
qed

lemma collect_nr_sequences_Inl:
  "collect_nr_sequences nd = Inl e \<Longrightarrow> \<exists>m. e = IteratorValidationError m"
proof (induction nd)
  case Nil
  then show ?case by simp
next
  case (Cons kv nd)
  obtain k d where kv: "kv = (k, d)" by (cases kv)
  show ?case
  proof (cases d)
    case NoShapeObj
    then show ?thesis using Cons.prems by (auto simp: kv)
  next
    case (Arr v)
    then show ?thesis
      using Cons by (auto simp: kv split: sum.splits if_splits)
  qed
qed

lemma collect_nr_sequences_cases:
  "(\<exists>e. collect_nr_sequences nd = Inl e) \<or> (\<exists>nr. collect_nr_sequences nd = Inr nr)"
  by (cases "collect_nr_sequences nd") auto

lemma Min_eq_Max_iff:
  fixes xs :: "nat list"
  assumes "xs \<noteq> []"
  shows "Min (set xs) = Max (set xs) \<longleftrightarrow> (\<forall>x\<in>set xs. \<forall>y\<in>set xs. x = y)"
proof
  assume eq: "Min (set xs) = Max (set xs)"
  show "\<forall>x\<in>set xs. \<forall>y\<in>set xs. x = y"
  proof (intro ballI)
    fix x y assume "x \<in> set xs" "y \<in> set xs"
    then have "Min (set xs) \<le> x" "x \<le> Max (set xs)" "Min (set xs) \<le> y" "y \<le> Max (set xs)"
      by simp_all
    with eq show "x = y" by linarith
  qed
next
  assume all: "\<forall>x\<in>set xs. \<forall>y\<in>set xs. x = y"
  have "Min (set xs) \<in> set xs" "Max (set xs) \<in> set xs"
    using assms by (simp_all add: Min_in Max_in)
  with all show "Min (set xs) = Max (set xs)" by blast
qed

lemma validator_bad_entry:
  assumes "collect_nr_sequences named_data = Inl e"
  shows "\<exists>m. assert_correct_data_format named_data = Inl (IteratorValidationError m)"
    and "(\<exists>kv\<in>set named_data. snd kv = NoShapeObj)
          \<or> (\<exists>kv\<in>set named_data. \<exists>v. snd kv = Arr v \<and> length (shape v) < 3)"
    and "\<not> list_all (\<lambda>kv. obj_ok (snd kv)) named_data"
proof -
  obtain m where e: "e = IteratorValidationError m"
    using collect_nr_sequences_Inl [OF assms] by blast
  show "\<exists>m. assert_correct_data_format named_data = Inl (IteratorValidationError m)"
    using assms e by (simp add: assert_correct_data_format_def)
  show nok: "\<not> list_all (\<lambda>kv. obj_ok (snd kv)) named_data"
    using collect_nr_sequences_ok [of named_data] assms by auto
  then obtain kv where kv: "kv \<in> set named_data" "\<not> obj_ok (snd kv)"
    by (auto simp: list_all_iff)
  then have "snd kv = NoShapeObj \<or> (\<exists>v. snd kv = Arr v \<and> length (shape v) < 3)"
    by (cases "snd kv") auto
  with kv(1) show "(\<exists>kv\<in>set named_data. snd kv = NoShapeObj)
          \<or> (\<exists>kv\<in>set named_data. \<exists>v. snd kv = Arr v \<and> length (shape v) < 3)"
    by blast
qed

lemma validator_all_ok:
  assumes "collect_nr_sequences named_data = Inr nr" and "named_data \<noteq> []"
  shows "(\<forall>kv\<in>set named_data. \<forall>kv'\<in>set named_data.
             obj_batch_dim (snd kv) = obj_batch_dim (snd kv')) \<Longrightarrow>
         assert_correct_data_format named_data = Inr (obj_batch_dim (snd (hd named_data)))"
    and "\<not> (\<forall>kv\<in>set named_data. \<forall>kv'\<in>set named_data.
             obj_batch_dim (snd kv) = obj_batch_dim (snd kv')) \<Longrightarrow>
         assert_correct_data_format named_data =
           Inl (IteratorValidationError (UnequalSequences nr))"
    and "list_all (\<lambda>kv. obj_ok (snd kv)) named_data"
proof -
  show ok: "list_all (\<lambda>kv. obj_ok (snd kv)) named_data"
    using collect_nr_sequences_Inr [OF assms(1)] by blast
  have nr: "nr = map (\<lambda>kv. (fst kv, obj_batch_dim (snd kv))) named_data"
    using collect_nr_sequences_Inr [OF assms(1)] by blast
  define ds where "ds = map snd nr"
  have ne: "ds \<noteq> []" "nr \<noteq> []" using assms(2) nr by (auto simp: ds_def)
  have dims: "set ds = (\<lambda>kv. obj_batch_dim (snd kv)) ` set named_data"
    by (auto simp: nr ds_def)
  have hd_in: "hd named_data \<in> set named_data" using assms(2) by simp
  have iff: "(\<forall>x\<in>set ds. \<forall>y\<in>set ds. x = y) \<longleftrightarrow>
      (\<forall>kv\<in>set named_data. \<forall>kv'\<in>set named_data.
                 obj_batch_dim (snd kv) = obj_batch_dim (snd kv'))"
    unfolding dims by blast
  have unfold: "assert_correct_data_format named_data =
      (if Min (set ds) \<noteq> Max (set ds)
       then Inl (IteratorValidationError (UnequalSequences nr)) else Inr (Min (set ds)))"
    using assms(1) ne(2) by (simp add: assert_correct_data_format_def ds_def)
  {
    assume "\<forall>kv\<in>set named_data. \<forall>kv'\<in>set named_data.
             obj_batch_dim (snd kv) = obj_batch_dim (snd kv')"
    then have alleq: "\<forall>x\<in>set ds. \<forall>y\<in>set ds. x = y" using iff by blast
    then have eq: "Min (set ds) = Max (set ds)"
      using Min_eq_Max_iff [OF ne(1)] by blast
    have "Min (set ds) \<in> set ds"
      using ne(1) Min_in [of "set ds"] by blast
    moreover have "obj_batch_dim (snd (hd named_data)) \<in> set ds"
      unfolding dims using hd_in by blast
    ultimately have "Min (set ds) = obj_batch_dim (snd (hd named_data))"
      using alleq by blast
    then show "assert_correct_data_format named_data = Inr (obj_batch_dim (snd (hd named_data)))"
      using unfold eq by simp
  }
  {
    assume "\<not> (\<forall>kv\<in>set named_data. \<forall>kv'\<in>set named_data.
             obj_batch_dim (snd kv) = obj_batch_dim (snd kv'))"
    then have "\<not> (\<forall>x\<in>set ds. \<forall>y\<in>set ds. x = y)" using iff by blast
    then have neq: "Min (set ds) \<noteq> Max (set ds)"
      using Min_eq_Max_iff [OF ne(1)] by blast
    then show "assert_correct_data_format named_data =
           Inl (IteratorValidationError (UnequalSequences nr))"
      using unfold by simp
  }
qed

text \<open>
  Claim C4. For a non-empty named dataset, \<^verbatim>\<open>_assert_correct_data_format\<close> returns the
  common size of the batch dimension when every entry is an array with at least three
  axes and all batch dimensions are \<open>n\<close>; it raises \<^verbatim>\<open>IteratorValidationError\<close> exactly
  when some entry has no shape attribute, some array has fewer than three axes, or two
  batch dimensions differ; and it does nothing else.
\<close>

theorem assert_correct_data_format_spec:
  assumes "named_data \<noteq> []"
  shows "(list_all (\<lambda>kv. obj_ok (snd kv)) named_data \<and>
           (\<forall>kv\<in>set named_data. obj_batch_dim (snd kv) = n)
             \<longrightarrow> assert_correct_data_format named_data = Inr n)
       \<and> ((\<exists>m. assert_correct_data_format named_data = Inl (IteratorValidationError m)) \<longleftrightarrow>
            (\<exists>kv\<in>set named_data. snd kv = NoShapeObj)
          \<or> (\<exists>kv\<in>set named_data. \<exists>v. snd kv = Arr v \<and> length (shape v) < 3)
          \<or> (\<exists>kv\<in>set named_data. \<exists>kv'\<in>set named_data.
                obj_batch_dim (snd kv) \<noteq> obj_batch_dim (snd kv')))
       \<and> ((\<exists>n'. assert_correct_data_format named_data = Inr n') \<or>
          (\<exists>m. assert_correct_data_format named_data = Inl (IteratorValidationError m)))"
proof -
  define P where "P \<longleftrightarrow> list_all (\<lambda>kv. obj_ok (snd kv)) named_data"
  define Q where "Q \<longleftrightarrow> (\<forall>kv\<in>set named_data. obj_batch_dim (snd kv) = n)"
  define S where "S \<longleftrightarrow> assert_correct_data_format named_data = Inr n"
  define S' where "S' \<longleftrightarrow> (\<exists>n'. assert_correct_data_format named_data = Inr n')"
  define L where "L \<longleftrightarrow> (\<exists>m. assert_correct_data_format named_data = Inl (IteratorValidationError m))"
  define R1 where "R1 \<longleftrightarrow> (\<exists>kv\<in>set named_data. snd kv = NoShapeObj)"
  define R2 where "R2 \<longleftrightarrow> (\<exists>kv\<in>set named_data. \<exists>v. snd kv = Arr v \<and> length (shape v) < 3)"
  define R3 where "R3 \<longleftrightarrow> (\<exists>kv\<in>set named_data. \<exists>kv'\<in>set named_data.
                obj_batch_dim (snd kv) \<noteq> obj_batch_dim (snd kv'))"
  have hd_in: "hd named_data \<in> set named_data" using assms by simp
  have main: "(P \<and> Q \<longrightarrow> S) \<and> (L \<longleftrightarrow> R1 \<or> R2 \<or> R3) \<and> (S' \<or> L)"
  proof (cases "collect_nr_sequences named_data")
    case (Inl e)
    note bad = validator_bad_entry [OF Inl]
    have "L" "R1 \<or> R2" "\<not> P"
      using bad unfolding L_def R1_def R2_def P_def by blast+
    then show ?thesis by blast
  next
    case (Inr nr)
    note ok = validator_all_ok [OF Inr assms]
    have "\<not> R1" "\<not> R2"
      using ok(3) unfolding R1_def R2_def by (auto simp: list_all_iff)
    moreover have "R3 \<Longrightarrow> L \<and> \<not> Q"
    proof -
      assume R3
      then obtain kv kv' where kvs: "kv \<in> set named_data" "kv' \<in> set named_data"
        and neq: "obj_batch_dim (snd kv) \<noteq> obj_batch_dim (snd kv')"
        unfolding R3_def by blast
      then have "\<not> (\<forall>kv\<in>set named_data. \<forall>kv'\<in>set named_data.
             obj_batch_dim (snd kv) = obj_batch_dim (snd kv'))" by blast
      from ok(2) [OF this] have L unfolding L_def by blast
      moreover have "\<not> Q"
      proof
        assume Q
        then have "obj_batch_dim (snd kv) = n" "obj_batch_dim (snd kv') = n"
          using kvs unfolding Q_def by blast+
        with neq show False by simp
      qed
      ultimately show ?thesis by blast
    qed
    moreover have "\<not> R3 \<Longrightarrow> S' \<and> \<not> L \<and> (Q \<longrightarrow> S)"
    proof -
      assume "\<not> R3"
      then have "\<forall>kv\<in>set named_data. \<forall>kv'\<in>set named_data.
             obj_batch_dim (snd kv) = obj_batch_dim (snd kv')"
        unfolding R3_def by blast
      from ok(1) [OF this]
      have res: "assert_correct_data_format named_data = Inr (obj_batch_dim (snd (hd named_data)))" .
      have S' unfolding S'_def using res by blast
      moreover have "\<not> L" unfolding L_def using res by simp
      moreover have "Q \<longrightarrow> S"
      proof
        assume Q
        then have "obj_batch_dim (snd (hd named_data)) = n"
          using hd_in unfolding Q_def by blast
        with res show S unfolding S_def by simp
      qed
      ultimately show ?thesis by blast
    qed
    ultimately show ?thesis by blast
  qed
  then show ?thesis
    unfolding P_def Q_def S_def S'_def L_def R1_def R2_def R3_def .
qed

theorem assert_correct_data_format_spec_witness:
  "[(''x'', Arr (NdArray [5, 4, 2] (replicate 40 (0::int)))),
    (''y'', Arr (NdArray [5, 4, 1] (replicate 20 0)))] \<noteq> []
   \<and> assert_correct_data_format
       [(''x'', Arr (NdArray [5, 4, 2] (replicate 40 (0::int)))),
        (''y'', Arr (NdArray [5, 4, 1] (replicate 20 0)))] = Inr 4"
  using assert_correct_data_format_spec
    [of "[(''x'', Arr (NdArray [5, 4, 2] (replicate 40 (0::int)))),
          (''y'', Arr (NdArray [5, 4, 1] (replicate 20 0)))]" 4]
  by simp

section \<open>Undivided\<close>

lemma sample_undivided_init:
  "Undivided_init sample_data empty_world = Inr (sample_undivided, sample_world)"
  by (simp add: Undivided_init_def sample_data_def empty_world_def sample_undivided_def
      sample_world_def assert_correct_data_format_def)

text \<open>
  Claim C3. An \<^verbatim>\<open>Undivided\<close> iterator built from a dataset the validator accepts hands
  its consumer exactly one batch, the dictionary it was built from, and changes nothing
  else.
\<close>

theorem Undivided_yields_dataset:
  assumes "Undivided_init named_data w = Inr (it, w1)"
  shows "consume env verbose it w1 =
           Inr (it, w1\<lparr>received := received w1 @ [(length (heap w), named_data)]\<rparr>)"
proof -
  from assms have it: "it = Undivided (map fst named_data) (length (heap w))
                 (int (sum_list (map (\<lambda>(k, d). obj_size d) named_data)))"
    and w1: "w1 = w\<lparr>heap := heap w @ [named_data]\<rparr>"
    by (auto simp: Undivided_init_def split: sum.splits)
  show ?thesis
    by (simp add: consume_def collect_def it w1)
qed

theorem Undivided_yields_dataset_witness:
  "Undivided_init sample_data empty_world = Inr (sample_undivided, sample_world)
   \<and> consume sample_env False sample_undivided sample_world =
       Inr (sample_undivided, sample_world\<lparr>received := [(0, sample_data)]\<rparr>)"
  using Undivided_yields_dataset [OF sample_undivided_init, of sample_env False]
  by (simp add: sample_undivided_init) (simp add: sample_world_def empty_world_def)

section \<open>The noise decorator\<close>

subsection \<open>Construction\<close>

lemma check_keys_ok:
  assumes "data_attr it = Inr a" and "set keys \<subseteq> set (map fst (h ! a))"
  shows "check_keys it h keys = Inr ()"
  using assms by (induction keys) auto

text \<open>
  Claim C5, as the code has it. When the wrapped iterator keeps a dataset that has every
  name of the standard-deviation mapping, construction succeeds exactly when no mean
  mapping is given or the names of the mean mapping are the names of the
  standard-deviation mapping; otherwise the \<^verbatim>\<open>assert\<close> fails.
\<close>

theorem AddGaussianNoise_init_mean_check:
  assumes "data_attr it = Inr a"
    and "set (map fst std_dict) \<subseteq> set (map fst (heap w ! a))"
  shows "AddGaussianNoise_init it std_dict mean_dict w =
           (case mean_dict of
              None \<Rightarrow> Inr (AddGaussianNoise (data_names it) it std_dict [], w)
            | Some m \<Rightarrow>
                if set (map fst m) = set (map fst std_dict)
                then Inr (AddGaussianNoise (data_names it) it std_dict m, w)
                else Inl AssertionError)"
  using check_keys_ok [OF assms]
  by (simp add: AddGaussianNoise_init_def split: option.splits)

theorem AddGaussianNoise_init_mean_check_witness:
  "data_attr sample_undivided = Inr 0
   \<and> set (map fst [(''x'', 1 :: int)]) \<subseteq> set (map fst (heap sample_world ! 0))
   \<and> AddGaussianNoise_init sample_undivided [(''x'', 1)] (Some [(''x'', 5)]) sample_world =
       Inr (AddGaussianNoise [''x'', ''y''] sample_undivided [(''x'', 1)] [(''x'', 5)],
            sample_world)"
  using AddGaussianNoise_init_mean_check
    [of sample_undivided 0 "[(''x'', 1)]" sample_world "Some [(''x'', 5)]"]
  by (simp add: sample_undivided_def sample_world_def sample_data_def)

text \<open>The claim as stated fails: a mean mapping with fewer names than the
  standard-deviation mapping (here none at all) is rejected.\<close>

theorem AddGaussianNoise_init_subset_counterexample:
  "set (map fst ([] :: (string \<times> int) list)) \<subseteq> set (map fst [(''x'', 1 :: int)])
   \<and> AddGaussianNoise_init sample_undivided [(''x'', 1)] (Some []) sample_world
       = Inl AssertionError"
  by (simp add: AddGaussianNoise_init_def)

text \<open>
  Claim C6. Construction reads \<^verbatim>\<open>iter.data\<close>, which a noise decorator does not have:
  wrapping a decorator in a second one raises \<^verbatim>\<open>AttributeError\<close>, although the
  configured name is among the declared data names of the wrapped iterator.
\<close>

theorem AddGaussianNoise_init_nested_fails:
  "AddGaussianNoise_init sample_undivided [(''x'', 1)] None sample_world =
     Inr (sample_noisy, sample_world)
   \<and> set (map fst [(''x'', 1 :: int)]) \<subseteq> set (data_names sample_noisy)
   \<and> AddGaussianNoise_init sample_noisy [(''x'', 1)] None sample_world = Inl AttributeError"
  by (simp add: AddGaussianNoise_init_def sample_noisy_def sample_undivided_def
      sample_world_def sample_data_def)

subsection \<open>Iteration\<close>

text \<open>
  Claim C7. \<^verbatim>\<open>Undivided\<close> yields the dictionary it keeps, and the decorator assigns the
  noisy array into it: after one pass over the decorator the dataset kept by the
  \<^verbatim>\<open>Undivided\<close> iterator (heap address 0) holds the noisy \<open>x\<close>.
\<close>

theorem AddGaussianNoise_call_changes_Undivided_data:
  "consume sample_env False sample_noisy sample_world =
     Inr (sample_noisy,
          \<lparr>heap = [[(''x'', Arr (NdArray [1, 4, 2] [11, 13, 23, 25, 35, 37, 47, 49])),
                    (''y'', Arr (NdArray [2, 4, 1] [1, 2, 3, 4, 5, 6, 7, 8]))]],
           hstate = 8, stdout = [], sent = [],
           received = [(0, [(''x'', Arr (NdArray [1, 4, 2] [11, 13, 23, 25, 35, 37, 47, 49])),
                           (''y'', Arr (NdArray [2, 4, 1] [1, 2, 3, 4, 5, 6, 7, 8]))])]\<rparr>)
   \<and> heap sample_world ! 0 = sample_data
   \<and> data_attr sample_undivided = Inr 0"
  by (simp add: consume_def collect_def sample_noisy_def sample_undivided_def
      sample_world_def sample_data_def sample_env_def add_noise_key_def
      zeros_def fill_gaussian_def add_tt_def eval_nat_numeral)

lemma add_noise_key_result:
  assumes "map_of (heap w ! a) (fst kv) = Some (Arr x)"
  shows "\<exists>y g. shape y = shape x \<and>
           add_noise_key env mean_dict a kv w =
             Inr (w\<lparr>heap := (heap w)[a := AList.update (fst kv) (Arr y) (heap w ! a)],
                    hstate := g\<rparr>)"
proof -
  define mean where "mean = (case map_of mean_dict (fst kv) of None \<Rightarrow> 0 | Some m \<Rightarrow> m)"
  obtain xs g where d: "draws (gauss env) mean (snd kv) (prod_list (shape x)) (hstate w) = (xs, g)"
    by (cases "draws (gauss env) mean (snd kv) (prod_list (shape x)) (hstate w)")
  have "add_noise_key env mean_dict a kv w =
          Inr (w\<lparr>heap := (heap w)[a := AList.update (fst kv)
                   (Arr (NdArray (shape x) (map2 (+) (elems x) xs))) (heap w ! a)],
                 hstate := g\<rparr>)"
    using assms d
    by (simp add: add_noise_key_def fill_gaussian_def add_tt_def zeros_def mean_def)
  moreover have "shape (NdArray (shape x) (map2 (+) (elems x) xs)) = shape x" by simp
  ultimately show ?thesis by blast
qed

lemma add_noise_result:
  assumes "a < length (heap w)"
    and "\<forall>key\<in>fst ` set std_items. \<exists>x. map_of (heap w ! a) key = Some (Arr x)"
  shows "\<exists>w'. add_noise env mean_dict a std_items w = Inr w'
           \<and> length (heap w') = length (heap w)
           \<and> (\<forall>b. b \<noteq> a \<longrightarrow> heap w' ! b = heap w ! b)
           \<and> map fst (heap w' ! a) = map fst (heap w ! a)
           \<and> (\<forall>key. key \<notin> fst ` set std_items \<longrightarrow>
                  map_of (heap w' ! a) key = map_of (heap w ! a) key)
           \<and> (\<forall>key x. map_of (heap w ! a) key = Some (Arr x) \<longrightarrow>
                  (\<exists>y. map_of (heap w' ! a) key = Some (Arr y) \<and> shape y = shape x))
           \<and> stdout w' = stdout w \<and> sent w' = sent w \<and> received w' = received w"
  using assms
proof (induction std_items arbitrary: w)
  case Nil
  then show ?case by simp
next
  case (Cons kv std_items)
  from Cons.prems(2) obtain x where x: "map_of (heap w ! a) (fst kv) = Some (Arr x)"
    by auto
  from add_noise_key_result [OF x, of env mean_dict] obtain y g where
    y: "shape y = shape x" and
    step: "add_noise_key env mean_dict a kv w =
             Inr (w\<lparr>heap := (heap w)[a := AList.update (fst kv) (Arr y) (heap w ! a)],
                    hstate := g\<rparr>)"
    by blast
  define w1 where "w1 = w\<lparr>heap := (heap w)[a := AList.update (fst kv) (Arr y) (heap w ! a)],
                    hstate := g\<rparr>"
  have in_keys: "fst kv \<in> set (map fst (heap w ! a))"
    using x map_of_eq_None_iff [of "heap w ! a" "fst kv"] by auto
  have h1: "heap w1 ! a = AList.update (fst kv) (Arr y) (heap w ! a)"
    and len1: "length (heap w1) = length (heap w)"
    and other1: "\<And>b. b \<noteq> a \<Longrightarrow> heap w1 ! b = heap w ! b"
    and io1: "stdout w1 = stdout w" "sent w1 = sent w" "received w1 = received w"
    using Cons.prems(1) by (simp_all add: w1_def)
  have keys1: "map fst (heap w1 ! a) = map fst (heap w ! a)"
    using in_keys by (simp add: h1 update_keys)
  have map1: "map_of (heap w1 ! a) = (map_of (heap w ! a))(fst kv \<mapsto> Arr y)"
    by (simp add: h1 update_conv')
  have arr1: "\<And>key z. map_of (heap w ! a) key = Some (Arr z) \<Longrightarrow>
                 \<exists>y'. map_of (heap w1 ! a) key = Some (Arr y') \<and> shape y' = shape z"
    using x y by (auto simp: map1)
  have pre1: "a < length (heap w1)" using Cons.prems(1) len1 by simp
  have pre2: "\<forall>key\<in>fst ` set std_items. \<exists>x. map_of (heap w1 ! a) key = Some (Arr x)"
  proof
    fix key assume "key \<in> fst ` set std_items"
    then have "key \<in> fst ` set (kv # std_items)" by auto
    with Cons.prems(2) obtain z where "map_of (heap w ! a) key = Some (Arr z)" by blast
    from arr1 [OF this] show "\<exists>x. map_of (heap w1 ! a) key = Some (Arr x)" by blast
  qed
  from Cons.IH [OF pre1 pre2] obtain w' where
    r: "add_noise env mean_dict a std_items w1 = Inr w'"
    and len: "length (heap w') = length (heap w1)"
    and other: "\<forall>b. b \<noteq> a \<longrightarrow> heap w' ! b = heap w1 ! b"
    and keys: "map fst (heap w' ! a) = map fst (heap w1 ! a)"
    and unconf: "\<forall>key. key \<notin> fst ` set std_items \<longrightarrow>
                  map_of (heap w' ! a) key = map_of (heap w1 ! a) key"
    and arr: "\<forall>key x. map_of (heap w1 ! a) key = Some (Arr x) \<longrightarrow>
                  (\<exists>y. map_of (heap w' ! a) key = Some (Arr y) \<and> shape y = shape x)"
    and io: "stdout w' = stdout w1" "sent w' = sent w1" "received w' = received w1"
    by blast
  have res: "add_noise env mean_dict a (kv # std_items) w = Inr w'"
    using step r by (simp add: w1_def)
  have c_unconf: "\<forall>key. key \<notin> fst ` set (kv # std_items) \<longrightarrow>
                  map_of (heap w' ! a) key = map_of (heap w ! a) key"
    using unconf by (simp add: map1)
  have c_arr: "\<forall>key x. map_of (heap w ! a) key = Some (Arr x) \<longrightarrow>
                  (\<exists>y. map_of (heap w' ! a) key = Some (Arr y) \<and> shape y = shape x)"
  proof (intro allI impI)
    fix key z assume "map_of (heap w ! a) key = Some (Arr z)"
    from arr1 [OF this] obtain y' where "map_of (heap w1 ! a) key = Some (Arr y')"
      "shape y' = shape z" by blast
    moreover from arr this obtain y'' where "map_of (heap w' ! a) key = Some (Arr y'')"
      "shape y'' = shape y'" by blast
    ultimately show "\<exists>y. map_of (heap w' ! a) key = Some (Arr y) \<and> shape y = shape z"
      by simp
  qed
  show ?case
    using res len len1 other other1 keys keys1 c_unconf c_arr io io1 by simp
qed

text \<open>
  Claim C9. The decorator runs \<open>add_noise\<close> on every batch of the wrapped iterator
  before it hands the batch on. On a batch that has an array under every configured
  name, \<open>add_noise\<close> succeeds; afterwards the batch has the same names, every configured
  name holds an array of the shape it had before, and every other name holds what it
  held before.
\<close>

theorem AddGaussianNoise_batch:
  assumes "a < length (heap w)"
    and "\<forall>key\<in>fst ` set std_dict. \<exists>x. map_of (heap w ! a) key = Some (Arr x)"
  shows "(\<exists>w'. add_noise env mean_dict a std_dict w = Inr w'
            \<and> map fst (heap w' ! a) = map fst (heap w ! a)
            \<and> (\<forall>key\<in>fst ` set std_dict. \<exists>x y.
                   map_of (heap w ! a) key = Some (Arr x)
                 \<and> map_of (heap w' ! a) key = Some (Arr y) \<and> shape y = shape x)
            \<and> (\<forall>key. key \<notin> fst ` set std_dict \<longrightarrow>
                   map_of (heap w' ! a) key = map_of (heap w ! a) key))
       \<and> call env verbose (AddGaussianNoise ns it std_dict mean_dict) k w0 =
           (case call env verbose it
                   (\<lambda>b u. case add_noise env mean_dict b std_dict u of
                             Inl e \<Rightarrow> Inl e
                           | Inr u' \<Rightarrow> k b u') w0 of
              Inl e \<Rightarrow> Inl e
            | Inr (it1, w1) \<Rightarrow> Inr (AddGaussianNoise ns it1 std_dict mean_dict, w1))"
proof -
  from add_noise_result [OF assms, of env mean_dict] obtain w' where
    r: "add_noise env mean_dict a std_dict w = Inr w'"
    and keys: "map fst (heap w' ! a) = map fst (heap w ! a)"
    and unconf: "\<forall>key. key \<notin> fst ` set std_dict \<longrightarrow>
                  map_of (heap w' ! a) key = map_of (heap w ! a) key"
    and arr: "\<forall>key x. map_of (heap w ! a) key = Some (Arr x) \<longrightarrow>
                  (\<exists>y. map_of (heap w' ! a) key = Some (Arr y) \<and> shape y = shape x)"
    by blast
  have conf: "\<forall>key\<in>fst ` set std_dict. \<exists>x y.
                   map_of (heap w ! a) key = Some (Arr x)
                 \<and> map_of (heap w' ! a) key = Some (Arr y) \<and> shape y = shape x"
  proof
    fix key assume "key \<in> fst ` set std_dict"
    with assms(2) obtain x where x: "map_of (heap w ! a) key = Some (Arr x)" by blast
    with arr obtain y where "map_of (heap w' ! a) key = Some (Arr y)" "shape y = shape x"
      by blast
    with x show "\<exists>x y. map_of (heap w ! a) key = Some (Arr x)
                 \<and> map_of (heap w' ! a) key = Some (Arr y) \<and> shape y = shape x"
      by blast
  qed
  have first: "\<exists>w'. add_noise env mean_dict a std_dict w = Inr w'
            \<and> map fst (heap w' ! a) = map fst (heap w ! a)
            \<and> (\<forall>key\<in>fst ` set std_dict. \<exists>x y.
                   map_of (heap w ! a) key = Some (Arr x)
                 \<and> map_of (heap w' ! a) key = Some (Arr y) \<and> shape y = shape x)
            \<and> (\<forall>key. key \<notin> fst ` set std_dict \<longrightarrow>
                   map_of (heap w' ! a) key = map_of (heap w ! a) key)"
    using r keys conf unconf by blast
  have second: "call env verbose (AddGaussianNoise ns it std_dict mean_dict) k w0 =
           (case call env verbose it
                   (\<lambda>b u. case add_noise env mean_dict b std_dict u of
                             Inl e \<Rightarrow> Inl e
                           | Inr u' \<Rightarrow> k b u') w0 of
              Inl e \<Rightarrow> Inl e
            | Inr (it1, w1) \<Rightarrow> Inr (AddGaussianNoise ns it1 std_dict mean_dict, w1))"
    by simp
  from first second show ?thesis by (rule conjI)
qed

theorem AddGaussianNoise_batch_witness:
  "0 < length (heap sample_world)
   \<and> map_of (heap sample_world ! 0) ''x'' =
       Some (Arr (NdArray [1, 4, 2] [10, 11, 20, 21, 30, 31, 40, 41]))
   \<and> (\<exists>w'. add_noise sample_env [] 0 [(''x'', 1)] sample_world = Inr w'
          \<and> map fst (heap w' ! 0) = [''x'', ''y'']
          \<and> (\<exists>y. map_of (heap w' ! 0) ''x'' = Some (Arr y) \<and> shape y = [1, 4, 2])
          \<and> map_of (heap w' ! 0) ''y'' = Some (Arr (NdArray [2, 4, 1] [1, 2, 3, 4, 5, 6, 7, 8])))"
proof -
  have h1: "0 < length (heap sample_world)"
    by (simp add: sample_world_def)
  have x: "map_of (heap sample_world ! 0) ''x'' =
       Some (Arr (NdArray [1, 4, 2] [10, 11, 20, 21, 30, 31, 40, 41]))"
    and yv: "map_of (heap sample_world ! 0) ''y'' =
       Some (Arr (NdArray [2, 4, 1] [1, 2, 3, 4, 5, 6, 7, 8]))"
    and ks: "map fst (heap sample_world ! 0) = [''x'', ''y'']"
    by (simp_all add: sample_world_def sample_data_def)
  have h2: "\<forall>key\<in>fst ` set [(''x'', 1::int)].
              \<exists>x. map_of (heap sample_world ! 0) key = Some (Arr x)"
    using x by simp
  from AddGaussianNoise_batch [OF h1 h2, of sample_env "[]"]
  obtain w' where r: "add_noise sample_env [] 0 [(''x'', 1)] sample_world = Inr w'"
    and keys: "map fst (heap w' ! 0) = map fst (heap sample_world ! 0)"
    and conf: "\<forall>key\<in>fst ` set [(''x'', 1::int)]. \<exists>x y.
                   map_of (heap sample_world ! 0) key = Some (Arr x)
                 \<and> map_of (heap w' ! 0) key = Some (Arr y) \<and> shape y = shape x"
    and unconf: "\<forall>key. key \<notin> fst ` set [(''x'', 1::int)] \<longrightarrow>
                   map_of (heap w' ! 0) key = map_of (heap sample_world ! 0) key"
    by blast
  from conf x have cx: "\<exists>y. map_of (heap w' ! 0) ''x'' = Some (Arr y) \<and> shape y = [1, 4, 2]"
    by auto
  from unconf yv have cy: "map_of (heap w' ! 0) ''y'' =
      Some (Arr (NdArray [2, 4, 1] [1, 2, 3, 4, 5, 6, 7, 8]))"
    by simp
  show ?thesis using h1 x r keys ks cx cy by auto
qed

section \<open>Online and Minibatches\<close>

subsection \<open>The progress bar and the loops\<close>

lemma length_bar: "length bar = 50"
  by (simp add: bar_def)

lemma trunc_in_bar:
  assumes "0 \<le> p" and "p < int n"
  shows "trunc (of_int p / of_nat n * of_nat (length bar)) < int (length bar)"
proof -
  have n: "0 < n" using assms by simp
  let ?x = "(of_int p :: rat) / of_nat n * 50"
  have "(of_int p :: rat) < of_nat n"
    using assms by (metis of_int_less_iff of_int_of_nat_eq)
  then have lt: "?x < 50"
    using n by (simp add: pos_divide_less_eq)
  have "0 \<le> ?x" using assms by simp
  then have "trunc ?x = \<lfloor>?x\<rfloor>" by (simp add: trunc_def)
  moreover have "\<lfloor>?x\<rfloor> < 50" using lt by (simp add: floor_less_iff)
  ultimately show ?thesis by (simp add: length_bar)
qed

lemma send_fine:
  assumes "pbar_fine pb n b i0 (Suc len)"
  shows "\<exists>out pb'. send el pb ((int i0 + 1) * b) = Inr (out, pb')
            \<and> pbar_fine pb' n b (Suc i0) len"
proof (cases "pb = Silence")
  case True
  then show ?thesis by (simp add: pbar_fine_def)
next
  case False
  with assms obtain j where pb: "pb = InLoop n j" and n: "0 < n" and b: "0 \<le> b"
    and lt: "\<forall>i. i0 \<le> i \<and> Suc i < i0 + Suc len \<longrightarrow> (int i + 1) * b < int n"
    unfolding pbar_fine_def by auto
  define j' where "j' = trunc (of_int ((int i0 + 1) * b) / of_nat n * of_nat (length bar))"
  show ?thesis
  proof (cases "len = 0")
    case True
    have "\<exists>out pb'. send el pb ((int i0 + 1) * b) = Inr (out, pb')"
      using n by (simp add: pb Let_def)
    moreover have "\<And>pb'. pbar_fine pb' n b (Suc i0) 0"
      by (simp add: pbar_fine_def)
    ultimately show ?thesis using True by blast
  next
    case False
    then have "(int i0 + 1) * b < int n" using lt by simp
    moreover have "0 \<le> (int i0 + 1) * b" using b by simp
    ultimately have "j' < int (length bar)"
      unfolding j'_def by (rule trunc_in_bar [rotated])
    then have "send el pb ((int i0 + 1) * b) = Inr (py_slice bar j j', InLoop n j')"
      using n by (simp add: pb Let_def j'_def)
    moreover have "pbar_fine (InLoop n j') n b (Suc i0) len"
      using n b lt by (auto simp: pbar_fine_def)
    ultimately show ?thesis by blast
  qed
qed


lemma slice_axis1_ok:
  assumes "2 \<le> length (shape v)"
  shows "\<exists>y. slice_axis1 v a b = Inr y
           \<and> shape y = shape v ! 0 #
                 (slice_index b (shape v ! 1) - slice_index a (shape v ! 1)) # drop 2 (shape v)"
proof -
  from assms obtain t n rest where sh: "shape v = t # n # rest"
    by (cases "shape v"; cases "tl (shape v)") auto
  show ?thesis by (simp add: slice_axis1_def sh Let_def)
qed

lemma slice_items_ok:
  assumes "list_all (\<lambda>kv. obj_ok (snd kv)) nd"
  shows "\<exists>d. slice_items nd a b = Inr d
           \<and> list_all2 (\<lambda>kv kv'. fst kv' = fst kv \<and>
                 (\<exists>v y. snd kv = Arr v \<and> snd kv' = Arr y \<and> slice_axis1 v a b = Inr y)) nd d"
  using assms
proof (induction nd)
  case Nil
  then show ?case by simp
next
  case (Cons kv nd)
  obtain k d where kv: "kv = (k, d)" by (cases kv)
  from Cons.prems obtain v where d: "d = Arr v" and len: "3 \<le> length (shape v)"
    by (cases d) (auto simp: kv)
  from slice_axis1_ok [of v a b] len obtain y where y: "slice_axis1 v a b = Inr y"
    by auto
  from Cons obtain ds where ds: "slice_items nd a b = Inr ds"
    and rel: "list_all2 (\<lambda>kv kv'. fst kv' = fst kv \<and>
                 (\<exists>v y. snd kv = Arr v \<and> snd kv' = Arr y \<and> slice_axis1 v a b = Inr y)) nd ds"
    by auto
  have "slice_items (kv # nd) a b = Inr ((k, Arr y) # ds)"
    by (simp add: kv d y ds)
  moreover have "list_all2 (\<lambda>kv kv'. fst kv' = fst kv \<and>
                 (\<exists>v y. snd kv = Arr v \<and> snd kv' = Arr y \<and> slice_axis1 v a b = Inr y))
                 (kv # nd) ((k, Arr y) # ds)"
    using rel y by (simp add: kv d)
  ultimately show ?case by blast
qed

lemma minibatch_loop_collect:
  assumes "dat < length (heap w)"
    and "list_all (\<lambda>kv. obj_ok (snd kv)) (heap w ! dat)"
    and "pbar_fine pb n b i0 (length idxs)"
  shows "\<exists>w' ds. minibatch_loop el collect dat b (enumerate i0 idxs) pb w = Inr w'
           \<and> list_all2 (\<lambda>idx d. slice_items (heap w ! dat) (int idx * b) ((int idx + 1) * b) = Inr d)
                idxs ds
           \<and> heap w' = heap w @ ds
           \<and> received w' = received w @ enumerate (length (heap w)) ds
           \<and> sent w' = sent w @ map (\<lambda>p. (int (fst p) + 1) * b) (enumerate i0 idxs)
           \<and> hstate w' = hstate w"
  using assms
proof (induction idxs arbitrary: i0 pb w)
  case Nil
  show ?case by simp
next
  case (Cons idx idxs)
  let ?nd = "heap w ! dat"
  from slice_items_ok [OF Cons.prems(2), of "int idx * b" "(int idx + 1) * b"]
  obtain d where d: "slice_items ?nd (int idx * b) ((int idx + 1) * b) = Inr d"
    by blast
  define w1 where "w1 = w\<lparr>heap := heap w @ [d], received := received w @ [(length (heap w), d)]\<rparr>"
  have coll: "collect (length (heap w)) (w\<lparr>heap := heap w @ [d]\<rparr>) = Inr w1"
    by (simp add: collect_def w1_def)
  from Cons.prems(3) have "pbar_fine pb n b i0 (Suc (length idxs))" by simp
  from send_fine [OF this, of el] obtain out pb' where
    snd: "send el pb ((int i0 + 1) * b) = Inr (out, pb')"
    and fine': "pbar_fine pb' n b (Suc i0) (length idxs)"
    by blast
  define w2 where "w2 = print out (w1\<lparr>sent := sent w1 @ [(int i0 + 1) * b]\<rparr>)"
  have step: "minibatch_loop el collect dat b (enumerate i0 (idx # idxs)) pb w =
                minibatch_loop el collect dat b (enumerate (Suc i0) idxs) pb' w2"
    by (simp add: d coll snd w2_def)
  have heap2: "heap w2 = heap w @ [d]"
    and rec2: "received w2 = received w @ [(length (heap w), d)]"
    and sent2: "sent w2 = sent w @ [(int i0 + 1) * b]"
    and hs2: "hstate w2 = hstate w"
    by (simp_all add: w2_def w1_def print_def)
  have dat2: "dat < length (heap w2)" using Cons.prems(1) by (simp add: heap2)
  have nd2: "heap w2 ! dat = ?nd" using Cons.prems(1) by (simp add: heap2 nth_append)
  have ok2: "list_all (\<lambda>kv. obj_ok (snd kv)) (heap w2 ! dat)"
    using Cons.prems(2) by (simp add: nd2)
  from Cons.IH [OF dat2 ok2 fine', of ] obtain w' ds where
    r: "minibatch_loop el collect dat b (enumerate (Suc i0) idxs) pb' w2 = Inr w'"
    and rel: "list_all2 (\<lambda>idx d. slice_items (heap w2 ! dat) (int idx * b) ((int idx + 1) * b) = Inr d)
                idxs ds"
    and heap': "heap w' = heap w2 @ ds"
    and rec': "received w' = received w2 @ enumerate (length (heap w2)) ds"
    and sent': "sent w' = sent w2 @ map (\<lambda>p. (int (fst p) + 1) * b) (enumerate (Suc i0) idxs)"
    and hs': "hstate w' = hstate w2"
    by blast
  have c1: "minibatch_loop el collect dat b (enumerate i0 (idx # idxs)) pb w = Inr w'"
    using step r by simp
  have c2: "list_all2 (\<lambda>idx d. slice_items ?nd (int idx * b) ((int idx + 1) * b) = Inr d)
                (idx # idxs) (d # ds)"
    using rel d by (simp add: nd2)
  have c3: "heap w' = heap w @ (d # ds)" by (simp add: heap' heap2)
  have c4: "received w' = received w @ enumerate (length (heap w)) (d # ds)"
    by (simp add: rec' rec2 heap2)
  have c5: "sent w' = sent w @ map (\<lambda>p. (int (fst p) + 1) * b) (enumerate i0 (idx # idxs))"
    by (simp add: sent' sent2)
  have c6: "hstate w' = hstate w" by (simp add: hs' hs2)
  from c1 c2 c3 c4 c5 c6 show ?case by blast
qed

lemma online_loop_eq:
  "online_loop el k dat xs pb w = minibatch_loop el k dat 1 xs pb w"
  by (induction el k dat xs pb w rule: online_loop.induct) (simp_all split: sum.splits)

subsection \<open>Cutting a list into consecutive pieces\<close>

lemma concat_cuts:
  assumes "\<forall>i<k. c i \<le> c (Suc i)"
  shows "c 0 \<le> c k \<and>
         concat (map (\<lambda>i. take (c (Suc i) - c i) (drop (c i) xs)) [0..<k]) =
           take (c k - c 0) (drop (c 0) xs)"
  using assms
proof (induction k)
  case 0
  show ?case by simp
next
  case (Suc k)
  then have le: "c 0 \<le> c k"
    and ih: "concat (map (\<lambda>i. take (c (Suc i) - c i) (drop (c i) xs)) [0..<k]) =
           take (c k - c 0) (drop (c 0) xs)"
    and step: "c k \<le> c (Suc k)"
    by simp_all
  have "drop (c k - c 0) (drop (c 0) xs) = drop (c k) xs"
    using le by simp
  then have "take (c k - c 0) (drop (c 0) xs) @ take (c (Suc k) - c k) (drop (c k) xs) =
        take ((c k - c 0) + (c (Suc k) - c k)) (drop (c 0) xs)"
    by (simp add: take_add)
  moreover have "(c k - c 0) + (c (Suc k) - c k) = c (Suc k) - c 0"
    using le step by simp
  ultimately show ?case using ih le step by simp
qed

lemma length_concat_blocks:
  assumes "\<forall>r<t. length (g r) = m"
  shows "length (concat (map g [0..<t])) = t * m"
  using assms by (induction t) simp_all

lemma block_of_concat:
  assumes "\<forall>r<t. length (g r) = m" and "r < t"
  shows "take m (drop (r * m) (concat (map g [0..<t]))) = g r"
  using assms
proof (induction t)
  case 0
  then show ?case by simp
next
  case (Suc t)
  let ?A = "concat (map g [0..<t])"
  have lenA: "length ?A = t * m"
    using Suc.prems(1) by (intro length_concat_blocks) simp
  have gt: "length (g t) = m" using Suc.prems(1) by simp
  show ?case
  proof (cases "r < t")
    case True
    then have ih: "take m (drop (r * m) ?A) = g r"
      using Suc by simp
    have "Suc r \<le> t" using True by simp
    then have "Suc r * m \<le> t * m" by (rule mult_le_mono1)
    then have "r * m + m \<le> length ?A" by (simp add: lenA)
    then have "take m (drop (r * m) (?A @ g t)) = take m (drop (r * m) ?A)"
      by simp
    then show ?thesis using ih by simp
  next
    case False
    then have "r = t" using Suc.prems(2) by simp
    then show ?thesis using lenA gt by simp
  qed
qed

lemma sum_list_cuts:
  fixes c :: "nat \<Rightarrow> nat"
  assumes "\<forall>i<k. c i \<le> c (Suc i)"
  shows "c 0 \<le> c k \<and> sum_list (map (\<lambda>i. c (Suc i) - c i) [0..<k]) = c k - c 0"
  using assms
proof (induction k)
  case 0
  show ?case by simp
next
  case (Suc k)
  then have "c 0 \<le> c k" "sum_list (map (\<lambda>i. c (Suc i) - c i) [0..<k]) = c k - c 0"
    "c k \<le> c (Suc k)" by simp_all
  then show ?case by simp
qed

lemma concat_batch_dim_chunks:
  fixes v :: "'a ndarray"
  assumes sh: "shape v = t # n # rest" and wf: "wf_array v"
    and k: "n \<le> k * B"
  shows "concat_batch_dim t rest (map (\<lambda>i. chunk v (min (i * B) n) (min (Suc i * B) n)) [0..<k]) = v"
proof -
  define f where "f = prod_list rest"
  define E where "E = elems v"
  define c where "c i = min (i * B) n" for i
  define piece where "piece i r = take ((c (Suc i) - c i) * f) (drop (r * n * f + c i * f) E)" for i r
  have lenE: "length E = t * (n * f)"
    using wf by (simp add: wf_array_def sh E_def f_def)
  have mono: "\<And>i. c i \<le> c (Suc i)" by (simp add: c_def min_def)
  have c0: "c 0 = 0" by (simp add: c_def)
  have ck: "c k = n" using k by (simp add: c_def)
  have cn: "\<And>i. c i \<le> n" by (simp add: c_def)
  have ch: "\<And>i. chunk v (c i) (c (Suc i)) =
      NdArray (t # (c (Suc i) - c i) # rest) (concat (map (piece i) [0..<t]))"
  proof -
    fix i
    have "piece i = (\<lambda>r. take ((c (Suc i) - c i) * f) (drop (r * n * f + c i * f) E))"
      by (rule ext) (simp add: piece_def)
    then show "chunk v (c i) (c (Suc i)) =
      NdArray (t # (c (Suc i) - c i) # rest) (concat (map (piece i) [0..<t]))"
      by (simp add: chunk_def sh f_def E_def)
  qed
  have len_piece: "length (piece i r) = (c (Suc i) - c i) * f" if "r < t" for i r
  proof -
    have "r * n + c (Suc i) \<le> r * n + n" using cn by simp
    also have "\<dots> = Suc r * n" by simp
    also have "\<dots> \<le> t * n" using that by (intro mult_le_mono1) simp
    finally have "(r * n + c (Suc i)) * f \<le> t * n * f" by (rule mult_le_mono1)
    moreover have "(r * n + c (Suc i)) * f = r * n * f + c (Suc i) * f"
      by (rule add_mult_distrib)
    moreover have "length E = t * n * f"
      unfolding lenE by (rule mult.assoc [symmetric])
    ultimately have "r * n * f + c (Suc i) * f \<le> length E"
      by (simp only:)
    moreover have "c (Suc i) * f = c i * f + (c (Suc i) - c i) * f"
      using mono [of i] by (simp add: add_mult_distrib [symmetric])
    ultimately show ?thesis by (simp add: piece_def)
  qed
  have row: "take ((c (Suc i) - c i) * f) (drop (r * ((c (Suc i) - c i) * f))
               (concat (map (piece i) [0..<t]))) = piece i r" if "r < t" for i r
    using block_of_concat [of t "piece i" "(c (Suc i) - c i) * f" r] len_piece that
    by simp
  have cuts: "concat (map (\<lambda>i. piece i r) [0..<k]) = take (n * f) (drop (r * (n * f)) E)" for r
  proof -
    define d where "d i = r * n * f + c i * f" for i
    have dm: "\<forall>i<k. d i \<le> d (Suc i)" using mono by (simp add: d_def)
    have "piece i r = take (d (Suc i) - d i) (drop (d i) E)" for i
      by (simp add: piece_def d_def diff_mult_distrib)
    then have "concat (map (\<lambda>i. piece i r) [0..<k]) =
        concat (map (\<lambda>i. take (d (Suc i) - d i) (drop (d i) E)) [0..<k])"
      by simp
    also have "\<dots> = take (d k - d 0) (drop (d 0) E)"
      using concat_cuts [OF dm] by blast
    also have "\<dots> = take (n * f) (drop (r * (n * f)) E)"
      by (simp add: d_def c0 ck ac_simps)
    finally show ?thesis .
  qed
  have rows: "concat (map (\<lambda>y. take (shape y ! 1 * f) (drop (r * (shape y ! 1 * f)) (elems y)))
                 (map (\<lambda>i. chunk v (c i) (c (Suc i))) [0..<k])) =
              take (n * f) (drop (r * (n * f)) E)" if "r < t" for r
  proof -
    have "concat (map (\<lambda>y. take (shape y ! 1 * f) (drop (r * (shape y ! 1 * f)) (elems y)))
                 (map (\<lambda>i. chunk v (c i) (c (Suc i))) [0..<k])) =
          concat (map (\<lambda>i. piece i r) [0..<k])"
      using row [OF that] by (simp add: ch comp_def)
    then show ?thesis using cuts by simp
  qed
  have elems_eq: "concat (map (\<lambda>r. concat (map (\<lambda>y. take (shape y ! 1 * f)
                      (drop (r * (shape y ! 1 * f)) (elems y)))
                 (map (\<lambda>i. chunk v (c i) (c (Suc i))) [0..<k]))) [0..<t]) = E"
  proof -
    have "concat (map (\<lambda>r. concat (map (\<lambda>y. take (shape y ! 1 * f)
                      (drop (r * (shape y ! 1 * f)) (elems y)))
                 (map (\<lambda>i. chunk v (c i) (c (Suc i))) [0..<k]))) [0..<t]) =
          concat (map (\<lambda>r. take (n * f) (drop (r * (n * f)) E)) [0..<t])"
      using rows by (intro arg_cong [where f = concat] map_cong refl) simp
    also have "\<dots> = concat (map (\<lambda>r. take (Suc r * (n * f) - r * (n * f))
                                     (drop (r * (n * f)) E)) [0..<t])"
      by simp
    also have "\<dots> = take (t * (n * f) - 0 * (n * f)) (drop (0 * (n * f)) E)"
      using concat_cuts [of t "\<lambda>r. r * (n * f)" E] by simp
    also have "\<dots> = E" using lenE by simp
    finally show ?thesis .
  qed
  have shape_eq: "sum_list (map (\<lambda>y. shape y ! 1) (map (\<lambda>i. chunk v (c i) (c (Suc i))) [0..<k])) = n"
  proof -
    have "sum_list (map (\<lambda>y. shape y ! 1) (map (\<lambda>i. chunk v (c i) (c (Suc i))) [0..<k])) =
          sum_list (map (\<lambda>i. c (Suc i) - c i) [0..<k])"
      by (simp add: ch comp_def)
    also have "\<dots> = c k - c 0"
      using sum_list_cuts [of k c] mono by simp
    finally show ?thesis by (simp add: c0 ck)
  qed
  have "concat_batch_dim t rest (map (\<lambda>i. chunk v (c i) (c (Suc i))) [0..<k]) = NdArray (t # n # rest) E"
    unfolding concat_batch_dim_def f_def [symmetric]
    using elems_eq shape_eq by simp
  also have "\<dots> = v" by (cases v) (simp add: sh [symmetric] E_def)
  finally show ?thesis by (simp add: c_def)
qed

subsection \<open>The number of chunks, and one pass with a collecting consumer\<close>

lemma chunks_below:
  assumes "1 \<le> b" and "i < nat \<lceil>(of_nat n :: rat) / of_int b\<rceil>"
  shows "int i * b < int n"
proof -
  have bpos: "(0::rat) < of_int b" using assms(1) by simp
  from assms(2) have "int i < \<lceil>(of_nat n :: rat) / of_int b\<rceil>" by simp
  then have "(of_int (int i) :: rat) < of_nat n / of_int b"
    by (simp only: less_ceiling_iff)
  then have "(of_int (int i) :: rat) * of_int b < of_nat n"
    using bpos by (simp add: pos_less_divide_eq)
  then have "(of_int (int i * b) :: rat) < of_int (int n)" by simp
  then show ?thesis by (simp only: of_int_less_iff)
qed

lemma chunks_cover:
  assumes "1 \<le> b"
  shows "int n \<le> int (nat \<lceil>(of_nat n :: rat) / of_int b\<rceil>) * b"
proof -
  let ?x = "(of_nat n :: rat) / of_int b"
  have bpos: "(0::rat) < of_int b" using assms by simp
  have "0 \<le> ?x" using assms by simp
  then have "0 \<le> \<lceil>?x\<rceil>" by (simp add: ceiling_le_iff le_ceiling_iff)
  then have k: "int (nat \<lceil>?x\<rceil>) = \<lceil>?x\<rceil>" by simp
  have "?x \<le> of_int \<lceil>?x\<rceil>" by (rule le_of_int_ceiling)
  then have "(of_nat n :: rat) \<le> of_int \<lceil>?x\<rceil> * of_int b"
    by (rule iffD1 [OF pos_divide_le_eq [OF bpos]])
  then have "(of_int (int n) :: rat) \<le> of_int (\<lceil>?x\<rceil> * b)" by simp
  then have "int n \<le> \<lceil>?x\<rceil> * b" by (simp only: of_int_le_iff)
  then show ?thesis by (simp only: k)
qed

lemma chunks_one: "nat \<lceil>(of_nat n :: rat) / of_int 1\<rceil> = n"
  by simp

lemma progress_bar_fine:
  assumes "1 \<le> b"
  shows "pbar_fine (snd (progress_bar n)) n b 0 (nat \<lceil>(of_nat n :: rat) / of_int b\<rceil>)"
proof (cases "nat \<lceil>(of_nat n :: rat) / of_int b\<rceil> = 0")
  case True
  then show ?thesis by (simp add: pbar_fine_def)
next
  case False
  then have "0 < nat \<lceil>(of_nat n :: rat) / of_int b\<rceil>" by simp
  from chunks_below [OF assms this] have n: "0 < n" by simp
  have "\<forall>i. 0 \<le> i \<and> Suc i < 0 + nat \<lceil>(of_nat n :: rat) / of_int b\<rceil>
          \<longrightarrow> (int i + 1) * b < int n"
  proof (intro allI impI)
    fix i assume "0 \<le> i \<and> Suc i < 0 + nat \<lceil>(of_nat n :: rat) / of_int b\<rceil>"
    then have "Suc i < nat \<lceil>(of_nat n :: rat) / of_int b\<rceil>" by simp
    from chunks_below [OF assms this] show "(int i + 1) * b < int n"
      by (simp add: ac_simps)
  qed
  then show ?thesis using n assms by (simp add: pbar_fine_def progress_bar_def)
qed

lemma silence_fine: "pbar_fine (snd silence) n b i0 len"
  by (simp add: pbar_fine_def silence_def)

lemma shuffle_permutes_length:
  assumes "shuffle_permutes env"
  shows "length (fst (rnd_shuffle env r xs)) = length xs"
  using assms mset_eq_length unfolding shuffle_permutes_def by blast

lemma map_fst_enumerate_progress:
  "map (\<lambda>p. (int (fst p) + 1) * b) (enumerate 0 idxs) =
     map (\<lambda>i. (int i + 1) * b) [0..<length idxs]"
proof -
  have "map (\<lambda>p. (int (fst p) + 1) * b) (enumerate 0 idxs) =
        map (\<lambda>i. (int i + 1) * b) (map fst (enumerate 0 idxs))"
    by (simp only: map_map comp_def)
  also have "\<dots> = map (\<lambda>i. (int i + 1) * b) [0..<0 + length idxs]"
    by (simp only: map_fst_enumerate)
  also have "[0..<0 + length idxs] = [0..<length idxs]"
    by simp
  finally show ?thesis .
qed

lemma call_Minibatches_unfold:
  assumes "b \<noteq> 0"
    and "(if use_bar vb verbose then progress_bar n else silence) = (out, pb)"
    and "(if sh then rnd_shuffle env rnd [0..<nat \<lceil>(of_nat n :: rat) / of_int b\<rceil>]
          else ([0..<nat \<lceil>(of_nat n :: rat) / of_int b\<rceil>], rnd)) = (idxs, rnd')"
  shows "call env verbose (Minibatches ns n dat sh vb b ss rnd) k w =
           (case minibatch_loop (elapsed_str env) k dat b (enumerate 0 idxs) pb (print out w) of
              Inl e \<Rightarrow> Inl e
            | Inr w1 \<Rightarrow> Inr (Minibatches ns n dat sh vb b ss rnd', w1))"
  using assms by (simp add: Let_def)

lemma Minibatches_call_collect:
  assumes dat: "dat < length (heap w)"
    and ok: "list_all (\<lambda>kv. obj_ok (snd kv)) (heap w ! dat)"
    and b: "1 \<le> b"
    and perm: "sh \<longrightarrow> shuffle_permutes env"
    and k: "k = nat \<lceil>(of_nat n :: rat) / of_int b\<rceil>"
  shows "\<exists>idxs ds rnd' w'.
           call env verbose (Minibatches ns n dat sh vb b ss rnd) collect w =
             Inr (Minibatches ns n dat sh vb b ss rnd', w')
         \<and> (idxs, rnd') = (if sh then rnd_shuffle env rnd [0..<k] else ([0..<k], rnd))
         \<and> mset idxs = mset [0..<k]
         \<and> list_all2 (\<lambda>idx d. slice_items (heap w ! dat) (int idx * b) ((int idx + 1) * b) = Inr d)
              idxs ds
         \<and> heap w' = heap w @ ds
         \<and> received w' = received w @ enumerate (length (heap w)) ds
         \<and> sent w' = sent w @ map (\<lambda>i. (int i + 1) * b) [0..<k]
         \<and> hstate w' = hstate w"
proof -
  define start where "start = (if use_bar vb verbose then progress_bar n else silence)"
  define w0 where "w0 = print (fst start) w"
  obtain idxs rnd' where sh: "(idxs, rnd') =
      (if sh then rnd_shuffle env rnd [0..<k] else ([0..<k], rnd))"
    by (cases "if sh then rnd_shuffle env rnd [0..<k] else ([0..<k], rnd)") simp
  have ms: "mset idxs = mset [0..<k]"
  proof (cases sh)
    case True
    with sh have "idxs = fst (rnd_shuffle env rnd [0..<k])" by (metis fst_conv)
    with True perm show ?thesis by (simp add: shuffle_permutes_def)
  next
    case False
    with sh show ?thesis by simp
  qed
  then have len: "length idxs = k" using mset_eq_length by fastforce
  have fine: "pbar_fine (snd start) n b 0 (length idxs)"
    using progress_bar_fine [OF b, of n] silence_fine [of n b 0 k]
    by (simp add: start_def len k)
  have w0: "heap w0 = heap w" "received w0 = received w" "sent w0 = sent w"
    "hstate w0 = hstate w"
    by (simp_all add: w0_def print_def)
  have dat0: "dat < length (heap w0)" using dat by (simp add: w0)
  have ok0: "list_all (\<lambda>kv. obj_ok (snd kv)) (heap w0 ! dat)" using ok by (simp add: w0)
  from minibatch_loop_collect [OF dat0 ok0 fine, of "elapsed_str env"]
  obtain w' ds where
    r: "minibatch_loop (elapsed_str env) collect dat b (enumerate 0 idxs) (snd start) w0 = Inr w'"
    and rel: "list_all2 (\<lambda>idx d. slice_items (heap w0 ! dat) (int idx * b) ((int idx + 1) * b) = Inr d)
                idxs ds"
    and heap': "heap w' = heap w0 @ ds"
    and rec': "received w' = received w0 @ enumerate (length (heap w0)) ds"
    and sent': "sent w' = sent w0 @ map (\<lambda>p. (int (fst p) + 1) * b) (enumerate 0 idxs)"
    and hs': "hstate w' = hstate w0"
    by blast
  have bnz: "b \<noteq> 0" using b by simp
  have st: "(if use_bar vb verbose then progress_bar n else silence) = (fst start, snd start)"
    by (simp add: start_def)
  have c1: "call env verbose (Minibatches ns n dat sh vb b ss rnd) collect w =
             Inr (Minibatches ns n dat sh vb b ss rnd', w')"
    using call_Minibatches_unfold [OF bnz st sh [unfolded k, symmetric]] r
    by (simp add: w0_def)
  have c5: "sent w' = sent w @ map (\<lambda>i. (int i + 1) * b) [0..<k]"
    by (simp add: sent' w0 map_fst_enumerate_progress len)
  from c1 sh ms rel heap' rec' c5 hs' show ?thesis
    unfolding w0 by blast
qed

lemma slice_index_nonneg: "0 \<le> a \<Longrightarrow> slice_index a n = min (nat a) n"
  by (simp add: slice_index_def)

lemma slice_axis1_chunk:
  assumes "2 \<le> length (shape v)" and "0 \<le> a" and "0 \<le> b"
  shows "slice_axis1 v a b = Inr (chunk v (min (nat a) (shape v ! 1)) (min (nat b) (shape v ! 1)))"
proof -
  from assms(1) obtain t n rest where sh: "shape v = t # n # rest"
    by (cases "shape v"; cases "tl (shape v)") auto
  show ?thesis
    using assms(2,3)
    by (simp add: slice_axis1_def sh Let_def chunk_def slice_index_nonneg)
qed

lemma slice_items_batch_of:
  assumes "list_all (\<lambda>kv. obj_ok (snd kv)) nd" and "0 \<le> a" and "0 \<le> b"
  shows "slice_items nd a b = Inr (batch_of nd (nat a) (nat b))"
  using assms(1)
proof (induction nd)
  case Nil
  show ?case by (simp add: batch_of_def)
next
  case (Cons kv nd)
  obtain k d where kv: "kv = (k, d)" by (cases kv)
  from Cons.prems obtain v where d: "d = Arr v" and len: "3 \<le> length (shape v)"
    by (cases d) (auto simp: kv)
  have "slice_axis1 v a b = Inr (chunk v (min (nat a) (shape v ! 1)) (min (nat b) (shape v ! 1)))"
    using slice_axis1_chunk [of v a b] len assms(2,3) by simp
  moreover have "slice_items nd a b = Inr (batch_of nd (nat a) (nat b))"
    using Cons by simp
  ultimately show ?case by (simp add: kv d batch_of_def)
qed

lemma validated:
  assumes "assert_correct_data_format nd = Inr n"
  shows "nd \<noteq> []" and "list_all (\<lambda>kv. obj_ok (snd kv)) nd"
    and "\<forall>kv\<in>set nd. obj_batch_dim (snd kv) = n"
proof -
  from assms obtain nr where nr: "collect_nr_sequences nd = Inr nr"
    by (cases "collect_nr_sequences nd") (simp_all add: assert_correct_data_format_def)
  show ne: "nd \<noteq> []"
    using assms by (auto simp: assert_correct_data_format_def)
  note ok = validator_all_ok [OF nr ne]
  show "list_all (\<lambda>kv. obj_ok (snd kv)) nd" by (rule ok(3))
  have alleq: "\<forall>kv\<in>set nd. \<forall>kv'\<in>set nd. obj_batch_dim (snd kv) = obj_batch_dim (snd kv')"
  proof (rule ccontr)
    assume "\<not> ?thesis"
    from ok(2) [OF this] assms show False by simp
  qed
  from ok(1) [OF alleq] assms have n: "n = obj_batch_dim (snd (hd nd))" by simp
  have "hd nd \<in> set nd" using ne by simp
  with alleq n show "\<forall>kv\<in>set nd. obj_batch_dim (snd kv) = n" by blast
qed

lemma call_Online_unfold:
  assumes "(if use_bar vb verbose then progress_bar n else silence) = (out, pb)"
    and "(if sh then rnd_shuffle env rnd [0..<n] else ([0..<n], rnd)) = (idxs, rnd')"
  shows "call env verbose (Online ns n dat sh vb ss rnd) k w =
           (case online_loop (elapsed_str env) k dat (enumerate 0 idxs) pb (print out w) of
              Inl e \<Rightarrow> Inl e
            | Inr w1 \<Rightarrow> Inr (Online ns n dat sh vb ss rnd', w1))"
  using assms by (simp add: Let_def)

lemma Online_call_collect:
  assumes dat: "dat < length (heap w)"
    and ok: "list_all (\<lambda>kv. obj_ok (snd kv)) (heap w ! dat)"
    and perm: "sh \<longrightarrow> shuffle_permutes env"
  shows "\<exists>idxs ds rnd' w'.
           call env verbose (Online ns n dat sh vb ss rnd) collect w =
             Inr (Online ns n dat sh vb ss rnd', w')
         \<and> (idxs, rnd') = (if sh then rnd_shuffle env rnd [0..<n] else ([0..<n], rnd))
         \<and> mset idxs = mset [0..<n]
         \<and> list_all2 (\<lambda>idx d. slice_items (heap w ! dat) (int idx) (int idx + 1) = Inr d) idxs ds
         \<and> heap w' = heap w @ ds
         \<and> received w' = received w @ enumerate (length (heap w)) ds
         \<and> sent w' = sent w @ map (\<lambda>i. int i + 1) [0..<n]
         \<and> hstate w' = hstate w"
proof -
  define start where "start = (if use_bar vb verbose then progress_bar n else silence)"
  define w0 where "w0 = print (fst start) w"
  obtain idxs rnd' where sh: "(idxs, rnd') =
      (if sh then rnd_shuffle env rnd [0..<n] else ([0..<n], rnd))"
    by (cases "if sh then rnd_shuffle env rnd [0..<n] else ([0..<n], rnd)") simp
  have ms: "mset idxs = mset [0..<n]"
  proof (cases sh)
    case True
    with sh have "idxs = fst (rnd_shuffle env rnd [0..<n])" by (metis fst_conv)
    with True perm show ?thesis by (simp add: shuffle_permutes_def)
  next
    case False
    with sh show ?thesis by simp
  qed
  then have len: "length idxs = n" using mset_eq_length by fastforce
  have fine: "pbar_fine (snd start) n 1 0 (length idxs)"
    using progress_bar_fine [of 1 n] silence_fine [of n 1 0 n]
    by (simp add: start_def len)
  have w0: "heap w0 = heap w" "received w0 = received w" "sent w0 = sent w"
    "hstate w0 = hstate w"
    by (simp_all add: w0_def print_def)
  have dat0: "dat < length (heap w0)" using dat by (simp add: w0)
  have ok0: "list_all (\<lambda>kv. obj_ok (snd kv)) (heap w0 ! dat)" using ok by (simp add: w0)
  from minibatch_loop_collect [OF dat0 ok0 fine, of "elapsed_str env"]
  obtain w' ds where
    r: "minibatch_loop (elapsed_str env) collect dat 1 (enumerate 0 idxs) (snd start) w0 = Inr w'"
    and rel: "list_all2 (\<lambda>idx d. slice_items (heap w0 ! dat) (int idx * 1) ((int idx + 1) * 1) = Inr d)
                idxs ds"
    and heap': "heap w' = heap w0 @ ds"
    and rec': "received w' = received w0 @ enumerate (length (heap w0)) ds"
    and sent': "sent w' = sent w0 @ map (\<lambda>p. (int (fst p) + 1) * 1) (enumerate 0 idxs)"
    and hs': "hstate w' = hstate w0"
    by blast
  have st: "(if use_bar vb verbose then progress_bar n else silence) = (fst start, snd start)"
    by (simp add: start_def)
  have c1: "call env verbose (Online ns n dat sh vb ss rnd) collect w =
             Inr (Online ns n dat sh vb ss rnd', w')"
    using call_Online_unfold [OF st sh [symmetric]] r
    by (simp add: w0_def online_loop_eq)
  have c5: "sent w' = sent w @ map (\<lambda>i. int i + 1) [0..<n]"
    using map_fst_enumerate_progress [of 1 idxs] by (simp add: sent' w0 len)
  have c2: "list_all2 (\<lambda>idx d. slice_items (heap w ! dat) (int idx) (int idx + 1) = Inr d) idxs ds"
    using rel by (simp add: w0)
  from c1 sh ms c2 heap' rec' c5 hs' show ?thesis
    unfolding w0 by blast
qed

subsection \<open>What the constructors establish, and the batches as chunks\<close>

lemma init_Online:
  assumes "Online_init sh vb rnd nd w = Inr (it, w1)"
  shows "\<exists>n ss. assert_correct_data_format nd = Inr n
           \<and> it = Online (map fst nd) n (length (heap w)) sh vb ss rnd
           \<and> w1 = w\<lparr>heap := heap w @ [nd]\<rparr>"
  using assms by (auto simp: Online_init_def split: sum.splits)

lemma init_Minibatches:
  assumes "Minibatches_init b sh vb rnd nd w = Inr (it, w1)"
  shows "\<exists>n ss. assert_correct_data_format nd = Inr n
           \<and> it = Minibatches (map fst nd) n (length (heap w)) sh vb b ss rnd
           \<and> w1 = w\<lparr>heap := heap w @ [nd]\<rparr>"
  using assms by (auto simp: Minibatches_init_def split: sum.splits)

lemma batch_of_keys: "map fst (batch_of nd lo hi) = map fst nd"
  by (simp add: batch_of_def comp_def)

lemma batch_of_entries:
  assumes "list_all (\<lambda>kv. obj_ok (snd kv)) nd"
    and "\<forall>kv\<in>set nd. obj_batch_dim (snd kv) = n"
  shows "list_all2 (\<lambda>kv kv'. fst kv' = fst kv \<and>
            (\<exists>v y. snd kv = Arr v \<and> snd kv' = Arr y
                 \<and> length (shape y) = length (shape v)
                 \<and> shape y ! 1 = min hi n - min lo n))
           nd (batch_of nd lo hi)"
  using assms
proof (induction nd)
  case Nil
  show ?case by (simp add: batch_of_def)
next
  case (Cons kv nd)
  from Cons.prems obtain v where d: "snd kv = Arr v" and len: "3 \<le> length (shape v)"
    and n: "shape v ! 1 = n"
    by (cases "snd kv") auto
  have "length (shape (chunk v (min lo n) (min hi n))) = length (shape v)"
    using len by (simp add: chunk_def)
  moreover have "shape (chunk v (min lo n) (min hi n)) ! 1 = min hi n - min lo n"
    by (simp add: chunk_def)
  moreover have "list_all2 (\<lambda>kv kv'. fst kv' = fst kv \<and>
            (\<exists>v y. snd kv = Arr v \<and> snd kv' = Arr y
                 \<and> length (shape y) = length (shape v)
                 \<and> shape y ! 1 = min hi n - min lo n))
           nd (batch_of nd lo hi)"
    using Cons by simp
  ultimately show ?case
    using d n by (simp add: batch_of_def)
qed

lemma list_all2_slices:
  assumes "list_all2 (\<lambda>idx d. slice_items nd (a idx) (b idx) = Inr d) idxs ds"
    and "list_all (\<lambda>kv. obj_ok (snd kv)) nd"
    and "\<forall>idx\<in>set idxs. 0 \<le> a idx \<and> 0 \<le> b idx"
  shows "ds = map (\<lambda>idx. batch_of nd (nat (a idx)) (nat (b idx))) idxs"
  using assms(1,3)
proof (induction idxs ds rule: list_all2_induct)
  case Nil
  show ?case by simp
next
  case (Cons idx idxs d ds)
  then have "slice_items nd (a idx) (b idx) = Inr (batch_of nd (nat (a idx)) (nat (b idx)))"
    using slice_items_batch_of [OF assms(2)] by simp
  with Cons show ?case by simp
qed

lemma sample_online_init:
  "Online_init True None 0 sample_data empty_world = Inr (sample_online, sample_world)"
  by (simp add: Online_init_def sample_data_def empty_world_def sample_online_def
      sample_world_def assert_correct_data_format_def)

lemma sample_minibatches_init:
  "Minibatches_init 3 False None 0 sample_data empty_world =
     Inr (sample_minibatches, sample_world)"
  by (simp add: Minibatches_init_def sample_data_def empty_world_def sample_minibatches_def
      sample_world_def assert_correct_data_format_def)

lemma sample_env_permutes: "shuffle_permutes sample_env"
  by (simp add: shuffle_permutes_def sample_env_def)

subsection \<open>Online\<close>

text \<open>
  Claim C2. An \<^verbatim>\<open>Online\<close> iterator built from a dataset the validator accepts, with
  batch dimension \<open>n\<close>, hands its consumer exactly \<open>n\<close> batches. The batch for index
  \<open>idx\<close> is \<^verbatim>\<open>{k: v[:, idx:idx+1]}\<close>: it has the names of the dataset, and under each
  name an array with as many axes as the original and batch dimension 1. The indices
  visited are a permutation of \<open>0, ..., n-1\<close> (the random source's shuffle is taken to
  return a permutation), and without shuffling they are \<open>0, ..., n-1\<close> in this order.
\<close>

theorem Online_batches:
  assumes init: "Online_init sh vb rnd nd w = Inr (it, w1)"
    and perm: "sh \<longrightarrow> shuffle_permutes env"
  shows "\<exists>n idxs ds it' w2.
           assert_correct_data_format nd = Inr n
         \<and> consume env verbose it w1 = Inr (it', w2)
         \<and> received w2 = received w1 @ enumerate (length (heap w1)) ds
         \<and> length ds = n
         \<and> mset idxs = mset [0..<n]
         \<and> set idxs = {0..<n}
         \<and> (\<not> sh \<longrightarrow> idxs = [0..<n])
         \<and> list_all2 (\<lambda>idx d.
                slice_items nd (int idx) (int idx + 1) = Inr d
              \<and> list_all2 (\<lambda>kv kv'. fst kv' = fst kv \<and>
                   (\<exists>v y. snd kv = Arr v \<and> snd kv' = Arr y
                        \<and> length (shape y) = length (shape v) \<and> shape y ! 1 = 1)) nd d)
              idxs ds"
proof -
  from init_Online [OF init] obtain n ss where
    n: "assert_correct_data_format nd = Inr n"
    and it: "it = Online (map fst nd) n (length (heap w)) sh vb ss rnd"
    and w1: "w1 = w\<lparr>heap := heap w @ [nd]\<rparr>"
    by blast
  note v = validated [OF n]
  have dat: "length (heap w) < length (heap w1)" by (simp add: w1)
  have nd: "heap w1 ! length (heap w) = nd" by (simp add: w1)
  have ok: "list_all (\<lambda>kv. obj_ok (snd kv)) (heap w1 ! length (heap w))"
    using v(2) by (simp add: nd)
  from Online_call_collect [OF dat ok perm, of verbose "map fst nd" n vb ss rnd]
  obtain idxs ds rnd' w2 where
    c: "call env verbose it collect w1 =
          Inr (Online (map fst nd) n (length (heap w)) sh vb ss rnd', w2)"
    and sh: "(idxs, rnd') = (if sh then rnd_shuffle env rnd [0..<n] else ([0..<n], rnd))"
    and ms: "mset idxs = mset [0..<n]"
    and rel: "list_all2 (\<lambda>idx d. slice_items nd (int idx) (int idx + 1) = Inr d) idxs ds"
    and rec: "received w2 = received w1 @ enumerate (length (heap w1)) ds"
    unfolding it nd by blast
  have set_idxs: "set idxs = {0..<n}"
    using mset_eq_setD [OF ms] by simp
  have len: "length ds = n"
    using list_all2_lengthD [OF rel] mset_eq_length [OF ms] by simp
  have nosh: "\<not> sh \<longrightarrow> idxs = [0..<n]" using sh by (cases sh) auto
  have ds: "ds = map (\<lambda>idx. batch_of nd (nat (int idx)) (nat (int idx + 1))) idxs"
    using list_all2_slices [OF rel v(2)] by simp
  have each: "list_all2 (\<lambda>idx d.
                slice_items nd (int idx) (int idx + 1) = Inr d
              \<and> list_all2 (\<lambda>kv kv'. fst kv' = fst kv \<and>
                   (\<exists>v y. snd kv = Arr v \<and> snd kv' = Arr y
                        \<and> length (shape y) = length (shape v) \<and> shape y ! 1 = 1)) nd d)
              idxs ds"
    unfolding ds list_all2_map2
  proof (rule list_all2_same [THEN iffD2], intro ballI conjI)
    fix idx assume "idx \<in> set idxs"
    then have lt: "idx < n" using set_idxs by simp
    show "slice_items nd (int idx) (int idx + 1) =
            Inr (batch_of nd (nat (int idx)) (nat (int idx + 1)))"
      using slice_items_batch_of [OF v(2), of "int idx" "int idx + 1"] by simp
    have e: "min (nat (int idx + 1)) n - min (nat (int idx)) n = 1"
      using lt by simp
    show "list_all2 (\<lambda>kv kv'. fst kv' = fst kv \<and>
                   (\<exists>v y. snd kv = Arr v \<and> snd kv' = Arr y
                        \<and> length (shape y) = length (shape v) \<and> shape y ! 1 = 1)) nd
            (batch_of nd (nat (int idx)) (nat (int idx + 1)))"
      using batch_of_entries [OF v(2) v(3), where hi = "nat (int idx + 1)"
          and lo = "nat (int idx)"]
      unfolding e .
  qed
  from n c rec len ms set_idxs nosh each show ?thesis
    unfolding consume_def by blast
qed

theorem Online_batches_witness:
  "Online_init True None 0 sample_data empty_world = Inr (sample_online, sample_world)
   \<and> shuffle_permutes sample_env
   \<and> (\<exists>idxs ds it' w2.
          assert_correct_data_format sample_data = Inr 4
        \<and> consume sample_env False sample_online sample_world = Inr (it', w2)
        \<and> received w2 = enumerate 1 ds
        \<and> length ds = 4
        \<and> set idxs = {0..<4::nat})"
proof -
  have p: "True \<longrightarrow> shuffle_permutes sample_env"
    using sample_env_permutes by simp
  from Online_batches [OF sample_online_init p, of False]
  obtain n idxs ds it' w2 where
    n: "assert_correct_data_format sample_data = Inr n"
    and c: "consume sample_env False sample_online sample_world = Inr (it', w2)"
    and r: "received w2 = received sample_world @ enumerate (length (heap sample_world)) ds"
    and l: "length ds = n"
    and s: "set idxs = {0..<n}"
    by blast
  have n4: "n = 4"
    using n by (simp add: sample_data_def assert_correct_data_format_def)
  have r': "received w2 = enumerate 1 ds"
    using r by (simp add: sample_world_def)
  from n c r' l s show ?thesis
    unfolding n4 using sample_online_init sample_env_permutes by blast
qed

subsection \<open>Minibatches\<close>

lemma chunk_sizes:
  fixes x B n :: nat
  shows "min (x + B) n - min x n = min B (n - x)"
  by arith

lemma map_of_batch_of:
  "map_of (batch_of nd lo hi) key = map_option (chunk_obj lo hi) (map_of nd key)"
  by (induction nd) (simp_all add: batch_of_def)

lemma batches_reconstruct:
  assumes ok: "list_all (\<lambda>kv. obj_ok (snd kv)) nd"
    and dims: "\<forall>kv\<in>set nd. obj_batch_dim (snd kv) = n"
    and wf: "\<forall>kv\<in>set nd. \<forall>v. snd kv = Arr v \<longrightarrow> wf_array v"
    and cover: "n \<le> k * B"
    and key: "map_of nd key = Some (Arr v)"
  shows "\<exists>ys. list_all2 (\<lambda>d y. map_of d key = Some (Arr y))
                (map (\<lambda>idx. batch_of nd (idx * B) (Suc idx * B)) [0..<k]) ys
             \<and> concat_batch_dim (shape v ! 0) (drop 2 (shape v)) ys = v"
proof -
  from key have mem: "(key, Arr v) \<in> set nd" by (rule map_of_SomeD)
  with ok have "obj_ok (Arr v)" by (auto simp: list_all_iff)
  then have len: "3 \<le> length (shape v)" by simp
  from mem dims have n: "shape v ! 1 = n" by force
  from mem wf have wfv: "wf_array v" by force
  from len obtain t m rest where sh: "shape v = t # m # rest"
    by (cases "shape v"; cases "tl (shape v)") auto
  have m: "m = n" using n sh by simp
  define ys where "ys = map (\<lambda>i. chunk v (min (i * B) n) (min (Suc i * B) n)) [0..<k]"
  have "list_all2 (\<lambda>d y. map_of d key = Some (Arr y))
                (map (\<lambda>idx. batch_of nd (idx * B) (Suc idx * B)) [0..<k]) ys"
    unfolding ys_def list_all2_map1 list_all2_map2
    by (rule list_all2_same [THEN iffD2]) (simp add: map_of_batch_of key sh m)
  moreover have "concat_batch_dim (shape v ! 0) (drop 2 (shape v)) ys = v"
    using concat_batch_dim_chunks [OF sh [unfolded m] wfv cover]
    by (simp add: ys_def sh)
  ultimately show ?thesis by blast
qed


lemma batch_of_dims:
  assumes "list_all (\<lambda>kv. obj_ok (snd kv)) nd"
    and "\<forall>kv\<in>set nd. obj_batch_dim (snd kv) = n"
  shows "\<forall>kv\<in>set (batch_of nd lo hi). obj_batch_dim (snd kv) = min hi n - min lo n"
proof
  fix kv' assume "kv' \<in> set (batch_of nd lo hi)"
  then obtain kv where kv: "kv \<in> set nd" and kv': "kv' = (fst kv, chunk_obj lo hi (snd kv))"
    by (auto simp: batch_of_def)
  from kv assms(1) have "obj_ok (snd kv)" by (auto simp: list_all_iff)
  then obtain v where v: "snd kv = Arr v" by (cases "snd kv") auto
  from kv assms(2) v have "shape v ! 1 = n" by force
  then show "obj_batch_dim (snd kv') = min hi n - min lo n"
    by (simp add: kv' v chunk_def)
qed

lemma sample_data_wf: "\<forall>kv\<in>set sample_data. \<forall>v. snd kv = Arr v \<longrightarrow> wf_array v"
  by (simp add: sample_data_def wf_array_def)

lemma sample_data_valid: "assert_correct_data_format sample_data = Inr 4"
  by (simp add: sample_data_def assert_correct_data_format_def)

lemma sample_chunks: "nat \<lceil>(of_nat 4 :: rat) / of_int 3\<rceil> = 2"
  by code_simp

text \<open>
  Claim C1, as the code has it. For a batch size \<open>b \<ge> 1\<close>, a \<^verbatim>\<open>Minibatches\<close> iterator
  built from a dataset the validator accepts, with batch dimension \<open>n\<close>, hands its
  consumer exactly \<open>\<lceil>n / b\<rceil>\<close> batches. The batch for chunk \<open>idx\<close> is
  \<^verbatim>\<open>{k: v[:, idx*b:(idx+1)*b]}\<close>, has the names of the dataset and batch dimension
  \<open>min b (n - idx * b)\<close>; for the final chunk that is \<open>n - b * (\<lceil>n / b\<rceil> - 1)\<close>. The
  chunks visited are a permutation of \<open>0, ..., \<lceil>n / b\<rceil> - 1\<close> and come in this order
  without shuffling; then joining, for any name, the arrays of the batches along the
  batch dimension gives the array of the dataset (arrays hold as many elements as
  their shape says).
\<close>

theorem Minibatches_batches:
  assumes init: "Minibatches_init b sh vb rnd nd w = Inr (it, w1)"
    and b: "1 \<le> b"
    and perm: "sh \<longrightarrow> shuffle_permutes env"
    and wf: "\<forall>kv\<in>set nd. \<forall>v. snd kv = Arr v \<longrightarrow> wf_array v"
  shows "\<exists>n idxs ds it' w2.
           assert_correct_data_format nd = Inr n
         \<and> consume env verbose it w1 = Inr (it', w2)
         \<and> received w2 = received w1 @ enumerate (length (heap w1)) ds
         \<and> length ds = nat \<lceil>(of_nat n :: rat) / of_int b\<rceil>
         \<and> mset idxs = mset [0..<length ds]
         \<and> (\<not> sh \<longrightarrow> idxs = [0..<length ds])
         \<and> list_all2 (\<lambda>idx d.
                slice_items nd (int idx * b) ((int idx + 1) * b) = Inr d
              \<and> map fst d = map fst nd
              \<and> (\<forall>kv\<in>set d. obj_batch_dim (snd kv) = min (nat b) (n - idx * nat b)))
              idxs ds
         \<and> min (nat b) (n - (length ds - 1) * nat b) = n - nat b * (length ds - 1)
         \<and> (\<not> sh \<longrightarrow>
              (\<forall>key v. map_of nd key = Some (Arr v) \<longrightarrow>
                 (\<exists>ys. list_all2 (\<lambda>d y. map_of d key = Some (Arr y)) ds ys
                     \<and> concat_batch_dim (shape v ! 0) (drop 2 (shape v)) ys = v)))"
proof -
  from init_Minibatches [OF init] obtain n ss where
    n: "assert_correct_data_format nd = Inr n"
    and it: "it = Minibatches (map fst nd) n (length (heap w)) sh vb b ss rnd"
    and w1: "w1 = w\<lparr>heap := heap w @ [nd]\<rparr>"
    by blast
  note v = validated [OF n]
  define B where "B = nat b"
  define k where "k = nat \<lceil>(of_nat n :: rat) / of_int b\<rceil>"
  have bB: "b = int B" using b by (simp add: B_def)
  have dat: "length (heap w) < length (heap w1)" by (simp add: w1)
  have nd: "heap w1 ! length (heap w) = nd" by (simp add: w1)
  have ok: "list_all (\<lambda>kv. obj_ok (snd kv)) (heap w1 ! length (heap w))"
    using v(2) by (simp add: nd)
  from Minibatches_call_collect [OF dat ok b perm k_def, of verbose "map fst nd" vb ss rnd]
  obtain idxs ds rnd' w2 where
    c: "call env verbose it collect w1 =
          Inr (Minibatches (map fst nd) n (length (heap w)) sh vb b ss rnd', w2)"
    and sh: "(idxs, rnd') = (if sh then rnd_shuffle env rnd [0..<k] else ([0..<k], rnd))"
    and ms: "mset idxs = mset [0..<k]"
    and rel: "list_all2 (\<lambda>idx d. slice_items nd (int idx * b) ((int idx + 1) * b) = Inr d) idxs ds"
    and rec: "received w2 = received w1 @ enumerate (length (heap w1)) ds"
    unfolding it nd by blast
  have len: "length ds = k"
    using list_all2_lengthD [OF rel] mset_eq_length [OF ms] by simp
  have nosh: "\<not> sh \<longrightarrow> idxs = [0..<k]" using sh by (cases sh) auto
  have nonneg: "\<forall>idx\<in>set idxs. 0 \<le> int idx * b \<and> 0 \<le> (int idx + 1) * b"
    using b by simp
  have lo: "nat (int idx * b) = idx * B" and hi: "nat ((int idx + 1) * b) = Suc idx * B" for idx
    by (simp_all add: bB nat_mult_distrib nat_add_distrib)
  have ds: "ds = map (\<lambda>idx. batch_of nd (idx * B) (Suc idx * B)) idxs"
    using list_all2_slices [OF rel v(2) nonneg] by (simp only: lo hi)
  have each: "list_all2 (\<lambda>idx d.
                slice_items nd (int idx * b) ((int idx + 1) * b) = Inr d
              \<and> map fst d = map fst nd
              \<and> (\<forall>kv\<in>set d. obj_batch_dim (snd kv) = min B (n - idx * B)))
              idxs ds"
    unfolding ds list_all2_map2
  proof (rule list_all2_same [THEN iffD2], rule ballI, intro conjI)
    fix idx assume "idx \<in> set idxs"
    show "slice_items nd (int idx * b) ((int idx + 1) * b) =
            Inr (batch_of nd (idx * B) (Suc idx * B))"
      using slice_items_batch_of [OF v(2), of "int idx * b" "(int idx + 1) * b"] b
      by (simp only: lo hi) simp
    show "map fst (batch_of nd (idx * B) (Suc idx * B)) = map fst nd"
      by (rule batch_of_keys)
    have "min (Suc idx * B) n - min (idx * B) n = min B (n - idx * B)"
      using chunk_sizes [of "idx * B" B n] by (simp add: add.commute)
    then show "\<forall>kv\<in>set (batch_of nd (idx * B) (Suc idx * B)).
              obj_batch_dim (snd kv) = min B (n - idx * B)"
      using batch_of_dims [OF v(2) v(3), of "idx * B" "Suc idx * B"] by simp
  qed
  have cover: "n \<le> k * B"
  proof -
    have "int n \<le> int k * b" unfolding k_def by (rule chunks_cover [OF b])
    then have "int n \<le> int (k * B)" by (simp add: bB)
    then show ?thesis by (simp only: of_nat_le_iff)
  qed
  have last: "min B (n - (k - 1) * B) = n - B * (k - 1)"
  proof (cases k)
    case 0
    with cover show ?thesis by simp
  next
    case (Suc j)
    with cover have "n \<le> j * B + B" by simp
    then have "n - j * B \<le> B" by simp
    then show ?thesis by (simp add: Suc mult.commute)
  qed
  have recon: "\<not> sh \<longrightarrow>
              (\<forall>key v. map_of nd key = Some (Arr v) \<longrightarrow>
                 (\<exists>ys. list_all2 (\<lambda>d y. map_of d key = Some (Arr y)) ds ys
                     \<and> concat_batch_dim (shape v ! 0) (drop 2 (shape v)) ys = v))"
  proof (intro impI allI)
    fix key v assume "\<not> sh" and key: "map_of nd key = Some (Arr v)"
    then have "ds = map (\<lambda>idx. batch_of nd (idx * B) (Suc idx * B)) [0..<k]"
      using ds nosh by simp
    with batches_reconstruct [OF v(2) v(3) wf cover key]
    show "\<exists>ys. list_all2 (\<lambda>d y. map_of d key = Some (Arr y)) ds ys
                     \<and> concat_batch_dim (shape v ! 0) (drop 2 (shape v)) ys = v"
      by simp
  qed
  show ?thesis
    unfolding consume_def
    using n c rec len [unfolded k_def] ms [folded len] nosh [folded len]
      each [unfolded B_def] last [folded len, unfolded B_def] recon
    by blast
qed

theorem Minibatches_batches_witness:
  "Minibatches_init 3 False None 0 sample_data empty_world =
     Inr (sample_minibatches, sample_world)
   \<and> (1::int) \<le> 3
   \<and> (\<exists>ds it' w2.
          assert_correct_data_format sample_data = Inr 4
        \<and> consume sample_env False sample_minibatches sample_world = Inr (it', w2)
        \<and> received w2 = enumerate 1 ds
        \<and> length ds = 2)"
proof -
  have b: "(1::int) \<le> 3" by simp
  have p: "False \<longrightarrow> shuffle_permutes sample_env" by simp
  from Minibatches_batches [OF sample_minibatches_init b p sample_data_wf, of False]
  obtain n idxs ds it' w2 where
    n: "assert_correct_data_format sample_data = Inr n"
    and c: "consume sample_env False sample_minibatches sample_world = Inr (it', w2)"
    and r: "received w2 = received sample_world @ enumerate (length (heap sample_world)) ds"
    and l: "length ds = nat \<lceil>(of_nat n :: rat) / of_int 3\<rceil>"
    by blast
  have n4: "n = 4" using n sample_data_valid by simp
  have r': "received w2 = enumerate 1 ds"
    using r by (simp add: sample_world_def)
  have l': "length ds = 2" using l sample_chunks by (simp only: n4)
  from c r' l' show ?thesis
    using sample_minibatches_init sample_data_valid b by blast
qed

text \<open>The claim as stated, for every batch size, fails at batch size 0: construction
  succeeds and the pass raises \<^verbatim>\<open>ZeroDivisionError\<close> before the first batch.\<close>

theorem Minibatches_batch_size_zero_counterexample:
  "Minibatches_init 0 False None 0 sample_data empty_world =
     Inr (sample_minibatches0, sample_world)
   \<and> consume sample_env False sample_minibatches0 sample_world = Inl ZeroDivisionError"
  by (simp add: Minibatches_init_def sample_data_def empty_world_def sample_minibatches0_def
      sample_world_def assert_correct_data_format_def consume_def silence_def use_bar_def)

subsection \<open>Progress counts of Minibatches\<close>

lemma Minibatches_pass:
  assumes init: "Minibatches_init b sh vb rnd nd w = Inr (it, w1)"
    and b: "1 \<le> b"
    and perm: "sh \<longrightarrow> shuffle_permutes env"
  shows "\<exists>n idxs it' w2.
           assert_correct_data_format nd = Inr n
         \<and> consume env verbose it w1 = Inr (it', w2)
         \<and> mset idxs = mset [0..<nat \<lceil>(of_nat n :: rat) / of_int b\<rceil>]
         \<and> (\<not> sh \<longrightarrow> idxs = [0..<nat \<lceil>(of_nat n :: rat) / of_int b\<rceil>])
         \<and> received w2 = received w1 @ enumerate (length (heap w1))
               (map (\<lambda>idx. batch_of nd (idx * nat b) (Suc idx * nat b)) idxs)
         \<and> sent w2 = sent w1 @
               map (\<lambda>i. (int i + 1) * b) [0..<nat \<lceil>(of_nat n :: rat) / of_int b\<rceil>]"
proof -
  from init_Minibatches [OF init] obtain n ss where
    n: "assert_correct_data_format nd = Inr n"
    and it: "it = Minibatches (map fst nd) n (length (heap w)) sh vb b ss rnd"
    and w1: "w1 = w\<lparr>heap := heap w @ [nd]\<rparr>"
    by blast
  note v = validated [OF n]
  define B where "B = nat b"
  define k where "k = nat \<lceil>(of_nat n :: rat) / of_int b\<rceil>"
  have bB: "b = int B" using b by (simp add: B_def)
  have dat: "length (heap w) < length (heap w1)" by (simp add: w1)
  have nd: "heap w1 ! length (heap w) = nd" by (simp add: w1)
  have ok: "list_all (\<lambda>kv. obj_ok (snd kv)) (heap w1 ! length (heap w))"
    using v(2) by (simp add: nd)
  from Minibatches_call_collect [OF dat ok b perm k_def, of verbose "map fst nd" vb ss rnd]
  obtain idxs ds rnd' w2 where
    c: "call env verbose it collect w1 =
          Inr (Minibatches (map fst nd) n (length (heap w)) sh vb b ss rnd', w2)"
    and sh: "(idxs, rnd') = (if sh then rnd_shuffle env rnd [0..<k] else ([0..<k], rnd))"
    and ms: "mset idxs = mset [0..<k]"
    and rel: "list_all2 (\<lambda>idx d. slice_items nd (int idx * b) ((int idx + 1) * b) = Inr d) idxs ds"
    and rec: "received w2 = received w1 @ enumerate (length (heap w1)) ds"
    and snt: "sent w2 = sent w1 @ map (\<lambda>i. (int i + 1) * b) [0..<k]"
    unfolding it nd by blast
  have nosh: "\<not> sh \<longrightarrow> idxs = [0..<k]" using sh by (cases sh) auto
  have nonneg: "\<forall>idx\<in>set idxs. 0 \<le> int idx * b \<and> 0 \<le> (int idx + 1) * b"
    using b by simp
  have lo: "nat (int idx * b) = idx * B" and hi: "nat ((int idx + 1) * b) = Suc idx * B" for idx
    by (simp_all add: bB nat_mult_distrib nat_add_distrib)
  have ds: "ds = map (\<lambda>idx. batch_of nd (idx * B) (Suc idx * B)) idxs"
    using list_all2_slices [OF rel v(2) nonneg] by (simp only: lo hi)
  show ?thesis
    unfolding consume_def
    using n c ms [unfolded k_def] nosh [unfolded k_def] rec [unfolded ds B_def]
      snt [unfolded k_def]
    by blast
qed

lemma samples_in_batch_of:
  assumes "nd \<noteq> []" and "list_all (\<lambda>kv. obj_ok (snd kv)) nd"
    and "\<forall>kv\<in>set nd. obj_batch_dim (snd kv) = n"
  shows "samples_in (batch_of nd lo hi) = min hi n - min lo n"
proof -
  from assms(1) obtain kv rest where nd: "nd = kv # rest" by (cases nd) auto
  have "batch_of nd lo hi \<noteq> []" using assms(1) by (simp add: batch_of_def)
  then have "hd (batch_of nd lo hi) \<in> set (batch_of nd lo hi)" by simp
  with batch_of_dims [OF assms(2,3), of lo hi]
  have "obj_batch_dim (snd (hd (batch_of nd lo hi))) = min hi n - min lo n" by blast
  then show ?thesis by (simp add: samples_in_def nd batch_of_def)
qed

lemma running_samples:
  assumes "nd \<noteq> []" and "list_all (\<lambda>kv. obj_ok (snd kv)) nd"
    and "\<forall>kv\<in>set nd. obj_batch_dim (snd kv) = n"
  shows "sum_list (map samples_in (map (\<lambda>idx. batch_of nd (idx * B) (Suc idx * B)) [0..<j])) =
           min (j * B) n"
proof -
  define c where "c i = min (i * B) n" for i
  have mono: "\<forall>i<j. c i \<le> c (Suc i)" by (simp add: c_def min_def)
  have "sum_list (map samples_in (map (\<lambda>idx. batch_of nd (idx * B) (Suc idx * B)) [0..<j])) =
        sum_list (map (\<lambda>i. c (Suc i) - c i) [0..<j])"
    using samples_in_batch_of [OF assms] by (simp add: comp_def c_def)
  also have "\<dots> = c j - c 0" using sum_list_cuts [OF mono] by blast
  finally show ?thesis by (simp add: c_def)
qed

text \<open>
  Claim C8, as the code has it. For a batch size \<open>b \<ge> 1\<close>, the count sent to the
  progress bar after the \<open>i\<close>-th batch is \<open>i * b\<close>, whatever the batches held. Without
  shuffling the batches yielded so far hold \<open>min (i * b) n\<close> samples, so the count is
  the number of samples yielded except after a truncated last batch; the last count
  is \<open>b * \<lceil>n / b\<rceil>\<close>, which is at least \<open>n\<close>.
\<close>

theorem Minibatches_progress:
  assumes init: "Minibatches_init b sh vb rnd nd w = Inr (it, w1)"
    and b: "1 \<le> b"
    and perm: "sh \<longrightarrow> shuffle_permutes env"
  shows "\<exists>n ds it' w2.
           assert_correct_data_format nd = Inr n
         \<and> consume env verbose it w1 = Inr (it', w2)
         \<and> received w2 = received w1 @ enumerate (length (heap w1)) ds
         \<and> sent w2 = sent w1 @ map (\<lambda>i. (int i + 1) * b) [0..<length ds]
         \<and> int n \<le> int (length ds) * b
         \<and> (\<not> sh \<longrightarrow>
              (\<forall>i<length ds. int (sum_list (map samples_in (take (Suc i) ds))) =
                  min ((int i + 1) * b) (int n)))"
proof -
  define B where "B = nat b"
  have bB: "b = int B" using b by (simp add: B_def)
  from Minibatches_pass [OF init b perm, of verbose] obtain n idxs it' w2 where
    n: "assert_correct_data_format nd = Inr n"
    and c: "consume env verbose it w1 = Inr (it', w2)"
    and ms: "mset idxs = mset [0..<nat \<lceil>(of_nat n :: rat) / of_int b\<rceil>]"
    and nosh: "\<not> sh \<longrightarrow> idxs = [0..<nat \<lceil>(of_nat n :: rat) / of_int b\<rceil>]"
    and rec: "received w2 = received w1 @ enumerate (length (heap w1))
               (map (\<lambda>idx. batch_of nd (idx * nat b) (Suc idx * nat b)) idxs)"
    and snt: "sent w2 = sent w1 @
               map (\<lambda>i. (int i + 1) * b) [0..<nat \<lceil>(of_nat n :: rat) / of_int b\<rceil>]"
    by blast
  note v = validated [OF n]
  define k where "k = nat \<lceil>(of_nat n :: rat) / of_int b\<rceil>"
  define ds where "ds = map (\<lambda>idx. batch_of nd (idx * B) (Suc idx * B)) idxs"
  have len: "length ds = k"
    using mset_eq_length [OF ms] by (simp add: ds_def k_def)
  have cover: "int n \<le> int k * b" unfolding k_def by (rule chunks_cover [OF b])
  have run: "\<not> sh \<longrightarrow>
              (\<forall>i<length ds. int (sum_list (map samples_in (take (Suc i) ds))) =
                  min ((int i + 1) * b) (int n))"
  proof (intro impI allI)
    fix i assume "\<not> sh" and i: "i < length ds"
    then have "ds = map (\<lambda>idx. batch_of nd (idx * B) (Suc idx * B)) [0..<k]"
      using nosh by (simp add: ds_def k_def)
    moreover have "take (Suc i) [0..<k] = [0..<Suc i]"
      using i len by (simp add: take_upt)
    ultimately have "take (Suc i) ds =
        map (\<lambda>idx. batch_of nd (idx * B) (Suc idx * B)) [0..<Suc i]"
      by (simp add: take_map)
    then have "sum_list (map samples_in (take (Suc i) ds)) = min (Suc i * B) n"
      using running_samples [OF v, of B "Suc i"] by simp
    then have "int (sum_list (map samples_in (take (Suc i) ds))) = int (min (Suc i * B) n)"
      by simp
    also have "\<dots> = min (int (Suc i * B)) (int n)"
      by (simp only: of_nat_min)
    also have "int (Suc i * B) = (int i + 1) * b"
      by (simp add: bB algebra_simps)
    finally show "int (sum_list (map samples_in (take (Suc i) ds))) =
                  min ((int i + 1) * b) (int n)" .
  qed
  show ?thesis
    using n c rec [folded B_def, folded ds_def] snt [folded k_def, folded len]
      cover [folded len] run
    by blast
qed

theorem Minibatches_progress_witness:
  "Minibatches_init 3 False None 0 sample_data empty_world =
     Inr (sample_minibatches, sample_world)
   \<and> (1::int) \<le> 3
   \<and> (\<exists>(ds :: int dict list) it' w2.
          consume sample_env False sample_minibatches sample_world = Inr (it', w2)
        \<and> sent w2 = map (\<lambda>i. (int i + 1) * 3) [0..<length ds]
        \<and> 4 \<le> int (length ds) * 3)"
proof -
  have b: "(1::int) \<le> 3" by simp
  have p: "False \<longrightarrow> shuffle_permutes sample_env" by simp
  from Minibatches_progress [OF sample_minibatches_init b p, of False]
  obtain n ds it' w2 where
    "assert_correct_data_format sample_data = Inr n
     \<and> consume sample_env False sample_minibatches sample_world = Inr (it', w2)
     \<and> received w2 = received sample_world @ enumerate (length (heap sample_world)) ds
     \<and> sent w2 = sent sample_world @ map (\<lambda>i. (int i + 1) * 3) [0..<length ds]
     \<and> int n \<le> int (length ds) * 3
     \<and> (\<not> False \<longrightarrow>
              (\<forall>i<length ds. int (sum_list (map samples_in (take (Suc i) ds))) =
                  min ((int i + 1) * 3) (int n)))"
    by (elim exE) (rule that)
  then have n: "assert_correct_data_format sample_data = Inr n"
    and c: "consume sample_env False sample_minibatches sample_world = Inr (it', w2)"
    and s: "sent w2 = sent sample_world @ map (\<lambda>i. (int i + 1) * 3) [0..<length ds]"
    and l: "int n \<le> int (length ds) * 3"
    by blast+
  have n4: "n = 4" using n sample_data_valid by simp
  have s': "sent w2 = map (\<lambda>i. (int i + 1) * 3) [0..<length ds]"
    using s by (simp add: sample_world_def)
  have l': "4 \<le> int (length ds) * 3" using l by (simp add: n4)
  have "\<exists>(ds :: int dict list) it' w2.
          consume sample_env False sample_minibatches sample_world = Inr (it', w2)
        \<and> sent w2 = map (\<lambda>i. (int i + 1) * 3) [0..<length ds]
        \<and> 4 \<le> int (length ds) * 3"
    using c s' l' by (intro exI conjI)
  with sample_minibatches_init b show ?thesis
    by (intro conjI)
qed

text \<open>The claim as stated fails when the batch size does not divide the number of
  samples: with four samples and batch size 3 the batches hold 3 and 1 samples, and the
  counts sent are 3 and 6.\<close>

theorem Minibatches_progress_counterexample:
  "\<exists>it' w2. consume sample_env False sample_minibatches sample_world = Inr (it', w2)
      \<and> sent w2 = [3, 6]
      \<and> map (\<lambda>p. samples_in (snd p)) (received w2) = [3, 1]"
proof -
  have "case consume sample_env False sample_minibatches sample_world of
          Inl e \<Rightarrow> False
        | Inr (it', w2) \<Rightarrow> sent w2 = [3, 6]
            \<and> map (\<lambda>p. samples_in (snd p)) (received w2) = [3, 1]"
    by code_simp
  then show ?thesis by (auto split: sum.splits)
qed

subsection \<open>A dataset without samples\<close>

lemma shuffle_empty:
  assumes "sh \<longrightarrow> shuffle_permutes env"
  shows "\<exists>rnd'. (if sh then rnd_shuffle env rnd [] else ([], rnd)) = ([], rnd')"
proof (cases sh)
  case True
  with assms have "mset (fst (rnd_shuffle env rnd [])) = mset []"
    unfolding shuffle_permutes_def by blast
  then have "fst (rnd_shuffle env rnd []) = []" by simp
  then show ?thesis using True by (cases "rnd_shuffle env rnd []") simp
next
  case False
  then show ?thesis by simp
qed

text \<open>
  Claim C10, as the code has it. On a dataset the validator accepts whose batch
  dimension is 0, a pass over \<^verbatim>\<open>Online\<close>, and over \<^verbatim>\<open>Minibatches\<close> with a batch size
  other than 0, ends without an error, hands the consumer no batch and sends nothing to
  the progress bar, so the division inside the progress bar is not reached.
\<close>

theorem empty_dataset_passes:
  assumes valid: "assert_correct_data_format nd = Inr 0"
    and perm: "sh \<longrightarrow> shuffle_permutes env"
    and b: "b \<noteq> 0"
  shows "(\<exists>it w1 it' w2.
            Online_init sh vb rnd nd w = Inr (it, w1)
          \<and> consume env verbose it w1 = Inr (it', w2)
          \<and> received w2 = received w1 \<and> sent w2 = sent w1 \<and> heap w2 = heap w1)
       \<and> (\<exists>it w1 it' w2.
            Minibatches_init b sh vb rnd nd w = Inr (it, w1)
          \<and> consume env verbose it w1 = Inr (it', w2)
          \<and> received w2 = received w1 \<and> sent w2 = sent w1 \<and> heap w2 = heap w1)"
proof (rule conjI)
  define w1 where "w1 = w\<lparr>heap := heap w @ [nd]\<rparr>"
  define ss where "ss = int (sum_list (map (\<lambda>(k, d). obj_sample_size d) nd))"
  define it :: "('a, 'c) iterator"
    where "it = Online (map fst nd) 0 (length (heap w)) sh vb ss rnd"
  define start where "start = (if use_bar vb verbose then progress_bar 0 else silence)"
  have init: "Online_init sh vb rnd nd w = Inr (it, w1)"
    using valid by (simp add: Online_init_def it_def w1_def ss_def)
  from shuffle_empty [OF perm, of rnd] obtain rnd' where
    "(if sh then rnd_shuffle env rnd [] else ([], rnd)) = ([], rnd')"
    by blast
  then have sh: "(if sh then rnd_shuffle env rnd [0..<0] else ([0..<0], rnd)) = ([], rnd')"
    by (simp only: upt_0)
  have st: "(if use_bar vb verbose then progress_bar 0 else silence) = (fst start, snd start)"
    by (simp add: start_def)
  have "call env verbose it collect w1 =
          Inr (Online (map fst nd) 0 (length (heap w)) sh vb ss rnd', print (fst start) w1)"
    unfolding it_def using call_Online_unfold [OF st sh] by simp
  then have "consume env verbose it w1 =
          Inr (Online (map fst nd) 0 (length (heap w)) sh vb ss rnd', print (fst start) w1)"
    by (simp add: consume_def)
  moreover have "received (print (fst start) w1) = received w1"
    "sent (print (fst start) w1) = sent w1" "heap (print (fst start) w1) = heap w1"
    by (simp_all add: print_def)
  ultimately show "\<exists>it w1 it' w2.
            Online_init sh vb rnd nd w = Inr (it, w1)
          \<and> consume env verbose it w1 = Inr (it', w2)
          \<and> received w2 = received w1 \<and> sent w2 = sent w1 \<and> heap w2 = heap w1"
    using init by blast
next
  define w1 where "w1 = w\<lparr>heap := heap w @ [nd]\<rparr>"
  define ss where "ss = sum_list (map (\<lambda>(k, d). int (obj_sample_size d) * b) nd)"
  define it :: "('a, 'c) iterator"
    where "it = Minibatches (map fst nd) 0 (length (heap w)) sh vb b ss rnd"
  define start where "start = (if use_bar vb verbose then progress_bar 0 else silence)"
  have init: "Minibatches_init b sh vb rnd nd w = Inr (it, w1)"
    using valid by (simp add: Minibatches_init_def it_def w1_def ss_def)
  have k0: "nat \<lceil>(of_nat 0 :: rat) / of_int b\<rceil> = 0" by simp
  from shuffle_empty [OF perm, of rnd] obtain rnd' where
    "(if sh then rnd_shuffle env rnd [] else ([], rnd)) = ([], rnd')"
    by blast
  then have sh: "(if sh then rnd_shuffle env rnd [0..<nat \<lceil>(of_nat 0 :: rat) / of_int b\<rceil>]
          else ([0..<nat \<lceil>(of_nat 0 :: rat) / of_int b\<rceil>], rnd)) = ([], rnd')"
    by (simp only: k0 upt_0)
  have st: "(if use_bar vb verbose then progress_bar 0 else silence) = (fst start, snd start)"
    by (simp add: start_def)
  have "call env verbose it collect w1 =
          Inr (Minibatches (map fst nd) 0 (length (heap w)) sh vb b ss rnd', print (fst start) w1)"
    unfolding it_def using call_Minibatches_unfold [OF b st sh] by simp
  then have "consume env verbose it w1 =
          Inr (Minibatches (map fst nd) 0 (length (heap w)) sh vb b ss rnd',
               print (fst start) w1)"
    by (simp add: consume_def)
  moreover have "received (print (fst start) w1) = received w1"
    "sent (print (fst start) w1) = sent w1" "heap (print (fst start) w1) = heap w1"
    by (simp_all add: print_def)
  ultimately show "\<exists>it w1 it' w2.
            Minibatches_init b sh vb rnd nd w = Inr (it, w1)
          \<and> consume env verbose it w1 = Inr (it', w2)
          \<and> received w2 = received w1 \<and> sent w2 = sent w1 \<and> heap w2 = heap w1"
    using init by blast
qed

lemma empty_data_valid: "assert_correct_data_format empty_data = Inr 0"
  by (simp add: empty_data_def assert_correct_data_format_def)

theorem empty_dataset_passes_witness:
  "assert_correct_data_format empty_data = Inr 0
   \<and> shuffle_permutes sample_env
   \<and> (-3::int) \<noteq> 0
   \<and> (\<exists>it w1 it' w2.
          Online_init True (Some True) 0 empty_data empty_world = Inr (it, w1)
        \<and> consume sample_env True it w1 = Inr (it', w2)
        \<and> received w2 = received w1 \<and> sent w2 = sent w1 \<and> heap w2 = heap w1)
   \<and> (\<exists>it w1 it' w2.
          Minibatches_init (-3) True (Some True) 0 empty_data empty_world = Inr (it, w1)
        \<and> consume sample_env True it w1 = Inr (it', w2)
        \<and> received w2 = received w1 \<and> sent w2 = sent w1 \<and> heap w2 = heap w1)"
proof -
  have p: "True \<longrightarrow> shuffle_permutes sample_env"
    using sample_env_permutes by simp
  have b: "(-3::int) \<noteq> 0" by simp
  note t = empty_dataset_passes [OF empty_data_valid p b,
      where vb = "Some True" and rnd = "0::nat" and w = empty_world and verbose = True]
  from t [THEN conjunct1] t [THEN conjunct2] empty_data_valid sample_env_permutes b
  show ?thesis by (intro conjI)
qed

text \<open>The claim as stated fails for \<^verbatim>\<open>Minibatches\<close> with batch size 0: the number of
  chunks is computed as \<open>0 / 0\<close>, which raises \<^verbatim>\<open>ZeroDivisionError\<close>.\<close>

theorem Minibatches_empty_batch_size_zero_counterexample:
  "assert_correct_data_format empty_data = Inr 0
   \<and> Minibatches_init 0 False None 0 empty_data empty_world =
       Inr (empty_minibatches0, empty_data_world)
   \<and> consume sample_env False empty_minibatches0 empty_data_world = Inl ZeroDivisionError"
  by (simp add: Minibatches_init_def empty_data_def empty_world_def empty_minibatches0_def
      empty_data_world_def assert_correct_data_format_def consume_def silence_def use_bar_def)

end
